theory Spec2Isabelle
  imports Main "HOL-Library.Word"
begin

unbundle bit_operations_syntax

section \<open>Data model of \<open>ring_buffer.h\<close>\<close>

type_synonym u8 = "8 word"
type_synonym u32 = "32 word"

definition RING_BUFFER_SUCCESS :: u8 where
  "RING_BUFFER_SUCCESS = 0x01"

definition RING_BUFFER_ERROR :: u8 where
  "RING_BUFFER_ERROR = 0x00"

text \<open>
  The handle \<open>ring_buffer\<close>. The field \<open>array_addr\<close> is a pointer in C; here it is the
  caller's array itself, so that its real size is \<open>length (array_addr rb)\<close>, which the
  code never compares with \<open>max_length\<close>.
\<close>

record ring_buffer =
  head :: u32
  tail :: u32
  lenght :: u32
  array_addr :: "u8 list"
  max_length :: u32

text \<open>
  What C leaves undefined is a value of the model: an access outside the object a pointer
  points into, and a shift whose count is negative or not smaller than the width.
\<close>

datatype fault = OutOfBounds | ShiftOutOfRange

text \<open>
  \<open>memcpy (arr + off, src, n)\<close> and \<open>memcpy (out, arr + off, n)\<close>: the first returns the
  updated array, the second the bytes copied out.
\<close>

definition memcpy_to :: "u8 list \<Rightarrow> nat \<Rightarrow> u8 list \<Rightarrow> nat \<Rightarrow> fault + u8 list" where
  "memcpy_to arr off src n =
     (if off + n \<le> length arr \<and> n \<le> length src
      then Inr (take off arr @ take n src @ drop (off + n) arr)
      else Inl OutOfBounds)"

definition memcpy_from :: "u8 list \<Rightarrow> nat \<Rightarrow> nat \<Rightarrow> fault + u8 list" where
  "memcpy_from arr off n =
     (if off + n \<le> length arr then Inr (take n (drop off arr)) else Inl OutOfBounds)"

section \<open>The operations of \<open>ring_buffer.c\<close>\<close>

text \<open>
  Every function takes the handle's state and returns the state it leaves behind, next to
  the value the C function returns.
\<close>

definition Ring_Buffer_Init :: "u8 list \<Rightarrow> u32 \<Rightarrow> u8 \<times> ring_buffer" where
  "Ring_Buffer_Init buffer_addr buffer_size =
     (let rb = \<lparr>head = 0, tail = 0, lenght = 0,
                array_addr = buffer_addr, max_length = buffer_size\<rparr>
      in if max_length rb < 2 then (RING_BUFFER_ERROR, rb) else (RING_BUFFER_SUCCESS, rb))"

text \<open>The parameter of \<open>Ring_Buffer_Delete\<close> is a \<open>uint8_t\<close>; it is converted to 32 bits
  in every comparison and sum.\<close>

definition Ring_Buffer_Delete :: "ring_buffer \<Rightarrow> u8 \<Rightarrow> u8 \<times> ring_buffer" where
  "Ring_Buffer_Delete rb n =
     (if lenght rb < ucast n then (RING_BUFFER_ERROR, rb)
      else
        let rb1 = (if head rb + ucast n \<ge> max_length rb
                   then rb\<lparr>head := ucast n - (max_length rb - head rb)\<rparr>
                   else rb\<lparr>head := head rb + ucast n\<rparr>)
        in (RING_BUFFER_SUCCESS, rb1\<lparr>lenght := lenght rb1 - ucast n\<rparr>))"

definition Ring_Buffer_Write_Byte :: "ring_buffer \<Rightarrow> u8 \<Rightarrow> fault + (u8 \<times> ring_buffer)" where
  "Ring_Buffer_Write_Byte rb rb_data =
     (if lenght rb = max_length rb - 1 then Inr (RING_BUFFER_ERROR, rb)
      else if unat (tail rb) < length (array_addr rb) then
        let rb1 = rb\<lparr>array_addr := (array_addr rb)[unat (tail rb) := rb_data],
                     lenght := lenght rb + 1,
                     tail := tail rb + 1\<rparr>
        in Inr (RING_BUFFER_SUCCESS,
                if tail rb1 > max_length rb1 - 1 then rb1\<lparr>tail := 0\<rparr> else rb1)
      else Inl OutOfBounds)"

text \<open>
  \<open>Ring_Buffer_Read_Byte\<close> returns the local \<open>rb_data\<close>, which is not initialised when the
  buffer is empty: that indeterminate value is \<open>None\<close>.
\<close>

definition Ring_Buffer_Read_Byte :: "ring_buffer \<Rightarrow> fault + (u8 option \<times> ring_buffer)" where
  "Ring_Buffer_Read_Byte rb =
     (if lenght rb \<noteq> 0 then
        (if unat (head rb) < length (array_addr rb) then
           let rb_data = array_addr rb ! unat (head rb);
               rb1 = rb\<lparr>head := head rb + 1, lenght := lenght rb - 1\<rparr>
           in Inr (Some rb_data,
                   if head rb1 > max_length rb1 - 1 then rb1\<lparr>head := 0\<rparr> else rb1)
         else Inl OutOfBounds)
      else Inr (None, rb))"

text \<open>
  \<open>input\<close> is the object \<open>input_addr\<close> points to; \<open>write_lenght\<close> is passed next to it, as
  in C, and may exceed its size.
\<close>

definition Ring_Buffer_Write_String ::
  "ring_buffer \<Rightarrow> u8 list \<Rightarrow> u32 \<Rightarrow> fault + (u8 \<times> ring_buffer)" where
  "Ring_Buffer_Write_String rb input write_lenght =
     (if lenght rb + write_lenght > max_length rb then Inr (RING_BUFFER_ERROR, rb)
      else
        let (write_size_a, write_size_b) =
              (if max_length rb - tail rb < write_lenght
               then (max_length rb - tail rb, write_lenght - (max_length rb - tail rb))
               else (write_lenght, 0))
        in if write_size_b \<noteq> 0 then
             (case memcpy_to (array_addr rb) (unat (tail rb)) input (unat write_size_a) of
                Inl f \<Rightarrow> Inl f
              | Inr arr1 \<Rightarrow>
                 (case memcpy_to arr1 0 (drop (unat write_size_a) input) (unat write_size_b) of
                    Inl f \<Rightarrow> Inl f
                  | Inr arr2 \<Rightarrow>
                     Inr (RING_BUFFER_SUCCESS,
                          rb\<lparr>array_addr := arr2,
                             lenght := lenght rb + write_lenght,
                             tail := write_size_b\<rparr>)))
           else
             (case memcpy_to (array_addr rb) (unat (tail rb)) input (unat write_size_a) of
                Inl f \<Rightarrow> Inl f
              | Inr arr1 \<Rightarrow>
                 let rb1 = rb\<lparr>array_addr := arr1,
                              lenght := lenght rb + write_lenght,
                              tail := tail rb + write_size_a\<rparr>
                 in Inr (RING_BUFFER_SUCCESS,
                         if tail rb1 = max_length rb1 then rb1\<lparr>tail := 0\<rparr> else rb1)))"

text \<open>
  The second component of the result is what the call stored at \<open>output_addr\<close>: nothing
  when it fails.
\<close>

definition Ring_Buffer_Read_String ::
  "ring_buffer \<Rightarrow> u32 \<Rightarrow> fault + (u8 \<times> u8 list \<times> ring_buffer)" where
  "Ring_Buffer_Read_String rb read_lenght =
     (if read_lenght > lenght rb then Inr (RING_BUFFER_ERROR, [], rb)
      else
        let (Read_size_a, Read_size_b) =
              (if read_lenght > max_length rb - head rb
               then (max_length rb - head rb, read_lenght - (max_length rb - head rb))
               else (read_lenght, 0))
        in if Read_size_b \<noteq> 0 then
             (case memcpy_from (array_addr rb) (unat (head rb)) (unat Read_size_a) of
                Inl f \<Rightarrow> Inl f
              | Inr out1 \<Rightarrow>
                 (case memcpy_from (array_addr rb) 0 (unat Read_size_b) of
                    Inl f \<Rightarrow> Inl f
                  | Inr out2 \<Rightarrow>
                     Inr (RING_BUFFER_SUCCESS, out1 @ out2,
                          rb\<lparr>lenght := lenght rb - read_lenght, head := Read_size_b\<rparr>)))
           else
             (case memcpy_from (array_addr rb) (unat (head rb)) (unat Read_size_a) of
                Inl f \<Rightarrow> Inl f
              | Inr out1 \<Rightarrow>
                 let rb1 = rb\<lparr>lenght := lenght rb - read_lenght,
                              head := head rb + Read_size_a\<rparr>
                 in Inr (RING_BUFFER_SUCCESS, out1,
                         if head rb1 = max_length rb1 then rb1\<lparr>head := 0\<rparr> else rb1)))"

text \<open>
  \<open>Ring_Buffer_Insert_Keyword\<close> reads the bytes of its parameter \<open>keyword\<close> through a
  \<open>uint8_t\<close> pointer, and the preprocessor chooses one of two bodies by the byte order of
  the host. \<open>object_bytes\<close> is the representation of a 32-bit integer in memory, lowest
  address first. The big-endian body passes \<open>keyword_byte + (keyword_lenght - 1)\<close> as the
  source; for \<open>keyword_lenght = 0\<close> that pointer lies before the array, which C leaves
  undefined.
\<close>

datatype byte_order = LittleEndian | BigEndian

definition byte_of :: "u32 \<Rightarrow> nat \<Rightarrow> u8" where
  "byte_of w i = ucast (drop_bit (8 * i) w)"

definition object_bytes :: "byte_order \<Rightarrow> u32 \<Rightarrow> u8 list" where
  "object_bytes bo w =
     (case bo of
        LittleEndian \<Rightarrow> [byte_of w 0, byte_of w 1, byte_of w 2, byte_of w 3]
      | BigEndian \<Rightarrow> [byte_of w 3, byte_of w 2, byte_of w 1, byte_of w 0])"

definition Ring_Buffer_Insert_Keyword ::
  "byte_order \<Rightarrow> ring_buffer \<Rightarrow> u32 \<Rightarrow> u8 \<Rightarrow> fault + (u8 \<times> ring_buffer)" where
  "Ring_Buffer_Insert_Keyword bo rb keyword keyword_lenght =
     (let keyword_addr = object_bytes bo keyword
      in case bo of
           LittleEndian \<Rightarrow>
             (let keyword_byte = [keyword_addr ! 3, keyword_addr ! 2,
                                  keyword_addr ! 1, keyword_addr ! 0]
              in Ring_Buffer_Write_String rb keyword_byte (ucast keyword_lenght))
         | BigEndian \<Rightarrow>
             (let keyword_byte = [keyword_addr ! 0, keyword_addr ! 1,
                                  keyword_addr ! 2, keyword_addr ! 3]
              in if keyword_lenght = 0 then Inl OutOfBounds
                 else Ring_Buffer_Write_String rb
                        (drop (unat keyword_lenght - 1) keyword_byte) (ucast keyword_lenght)))"

text \<open>
  \<open>Ring_Buffer_Get_Word\<close>: the \<open>for\<close> loop with its counter \<open>i\<close>, the local copy \<open>h\<close> of the
  parameter \<open>head\<close> and the accumulator \<open>rb_data\<close>. The byte is promoted to \<open>int\<close> before it
  is shifted; the model takes \<open>int\<close> as 32 bits wide and the shifted value as its
  two's-complement bit pattern, which is what the conversion to \<open>uint32_t\<close> in \<open>|=\<close> keeps.
  A count of 32 or more is undefined.
\<close>

function Get_Word_loop ::
  "ring_buffer \<Rightarrow> u32 \<Rightarrow> u32 \<Rightarrow> u32 \<Rightarrow> u32 \<Rightarrow> fault + (u32 \<times> ring_buffer)" where
  "Get_Word_loop rb read_lenght i h rb_data =
     (if i \<le> read_lenght then
        (if unat h < length (array_addr rb) then
           (if 8 * (read_lenght - i) < 32 then
              let rb_data1 = rb_data OR push_bit (unat (8 * (read_lenght - i)))
                                           (ucast (array_addr rb ! unat h));
                  h1 = h + 1;
                  h2 = (if h1 > max_length rb - 1 then 0 else h1)
              in Get_Word_loop rb read_lenght (i + 1) h2 rb_data1
            else Inl ShiftOutOfRange)
         else Inl OutOfBounds)
      else Inr (rb_data, rb))"
  by pat_completeness auto

termination
proof (relation "measure (\<lambda>(rb, read_lenght, i, h, rb_data).
          if i \<le> read_lenght
          then (if read_lenght = - 1 \<and> i = 0 then 0 else unat read_lenght + 1 - unat i)
          else 0)", goal_cases)
  case 1
  show ?case by simp
next
  case (2 rb rl i h rb_data x xa xb)
  then have le: "i \<le> rl" and sh: "8 * (rl - i) < 32"
    by simp_all
  have "(if i + 1 \<le> rl then (if rl = - 1 \<and> i + 1 = 0 then 0 else unat rl + 1 - unat (i + 1)) else 0)
         < (if rl = - 1 \<and> i = 0 then 0 else unat rl + 1 - unat i)"
  proof (cases "i = - 1")
    case True
    with le have rl: "rl = - 1"
      by (simp add: word_order.extremum_unique)
    show ?thesis using True rl by simp
  next
    case False
    then have suc: "unat (i + 1) = unat i + 1"
      by (metis add.commute unatSuc add_eq_0_iff Suc_eq_plus1)
    have i0: "\<not> (rl = - 1 \<and> i = 0)"
    proof
      assume "rl = - 1 \<and> i = 0"
      with sh show False by simp
    qed
    from le have "unat i \<le> unat rl"
      by (simp add: word_le_nat_alt)
    then show ?thesis using suc i0
      by (auto simp: word_le_nat_alt)
  qed
  with le show ?case by simp
qed

declare Get_Word_loop.simps [simp del]

definition Ring_Buffer_Get_Word ::
  "ring_buffer \<Rightarrow> u32 \<Rightarrow> u32 \<Rightarrow> fault + (u32 \<times> ring_buffer)" where
  "Ring_Buffer_Get_Word rb h read_lenght = Get_Word_loop rb read_lenght 1 h 0"

text \<open>
  \<open>Ring_Buffer_Find_Keyword\<close> leaves through one of two \<open>return\<close> statements: the one in the
  loop, with the distance, and the one after it, with \<open>RING_BUFFER_ERROR\<close>.
  \<open>Find_Keyword_test\<close> is the pair of nested conditions in the loop body. The loop need not
  end (the counter \<open>distance\<close> wraps around when \<open>max_find_lenght\<close> is \<open>0xFFFFFFFF\<close>), so it is a
  partial function: \<open>None\<close> is a call that does not return.
\<close>

datatype find_exit = Matched u32 | Exhausted

definition Find_Keyword_test ::
  "ring_buffer \<Rightarrow> u32 \<Rightarrow> u8 \<Rightarrow> u8 \<Rightarrow> u32 \<Rightarrow> fault + (bool \<times> ring_buffer)" where
  "Find_Keyword_test rb keyword keyword_lenght trigger_word find_head =
     (if unat find_head < length (array_addr rb) then
        (if array_addr rb ! unat find_head = trigger_word then
           (case Ring_Buffer_Get_Word rb find_head (ucast keyword_lenght) of
              Inl f \<Rightarrow> Inl f
            | Inr (w, rb1) \<Rightarrow> Inr (w = keyword, rb1))
         else Inr (False, rb))
      else Inl OutOfBounds)"

partial_function (option) Find_Keyword_loop ::
  "ring_buffer \<Rightarrow> u32 \<Rightarrow> u8 \<Rightarrow> u32 \<Rightarrow> u8 \<Rightarrow> u32 \<Rightarrow> u32
     \<Rightarrow> (fault + (find_exit \<times> ring_buffer)) option" where
  "Find_Keyword_loop rb keyword keyword_lenght max_find_lenght trigger_word distance find_head =
     (if distance \<le> max_find_lenght then
        (case Find_Keyword_test rb keyword keyword_lenght trigger_word find_head of
           Inl f \<Rightarrow> Some (Inl f)
         | Inr (hit, rb1) \<Rightarrow>
             if hit then Some (Inr (Matched distance, rb1))
             else Find_Keyword_loop rb1 keyword keyword_lenght max_find_lenght trigger_word
                    (distance + 1)
                    (if find_head + 1 > max_length rb1 - 1 then 0 else find_head + 1))
      else Some (Inr (Exhausted, rb)))"

declare Find_Keyword_loop.simps [code]

text \<open>
  The shift that computes \<open>trigger_word\<close> has the count \<open>(keyword_lenght - 1) * 8\<close>, an
  \<open>int\<close>: it is undefined for \<open>keyword_lenght = 0\<close> (negative) and for \<open>keyword_lenght > 4\<close>
  (32 or more).
\<close>

definition Ring_Buffer_Find_Keyword_exit ::
  "ring_buffer \<Rightarrow> u32 \<Rightarrow> u8 \<Rightarrow> (fault + (find_exit \<times> ring_buffer)) option" where
  "Ring_Buffer_Find_Keyword_exit rb keyword keyword_lenght =
     (let max_find_lenght = lenght rb - ucast keyword_lenght + 1
      in if keyword_lenght = 0 \<or> keyword_lenght > 4 then Some (Inl ShiftOutOfRange)
         else
           let trigger_word = (ucast (drop_bit ((unat keyword_lenght - 1) * 8) keyword) :: u8)
           in Find_Keyword_loop rb keyword keyword_lenght max_find_lenght trigger_word
                1 (head rb))"

definition Ring_Buffer_Find_Keyword ::
  "ring_buffer \<Rightarrow> u32 \<Rightarrow> u8 \<Rightarrow> (fault + (u32 \<times> ring_buffer)) option" where
  "Ring_Buffer_Find_Keyword rb keyword keyword_lenght =
     (case Ring_Buffer_Find_Keyword_exit rb keyword keyword_lenght of
        None \<Rightarrow> None
      | Some (Inl f) \<Rightarrow> Some (Inl f)
      | Some (Inr (Matched distance, rb1)) \<Rightarrow> Some (Inr (distance, rb1))
      | Some (Inr (Exhausted, rb1)) \<Rightarrow> Some (Inr (ucast RING_BUFFER_ERROR, rb1)))"

section \<open>Notions of the specification\<close>

text \<open>
  The invariant of the data model: the array has at least \<open>max_length\<close> slots, \<open>head\<close> and
  \<open>tail\<close> are indices into it, the length does not exceed the capacity, and \<open>tail\<close> lies
  \<open>lenght\<close> slots after \<open>head\<close> in circular order.
\<close>

definition rb_ok :: "ring_buffer \<Rightarrow> bool" where
  "rb_ok rb \<longleftrightarrow>
     unat (max_length rb) \<le> length (array_addr rb) \<and>
     head rb < max_length rb \<and>
     tail rb < max_length rb \<and>
     lenght rb \<le> max_length rb \<and>
     unat (tail rb) = (unat (head rb) + unat (lenght rb)) mod unat (max_length rb)"

text \<open>The stored bytes, oldest first.\<close>

definition stored :: "ring_buffer \<Rightarrow> u8 list" where
  "stored rb =
     map (\<lambda>i. array_addr rb ! ((unat (head rb) + i) mod unat (max_length rb)))
       [0..<unat (lenght rb)]"

text \<open>
  The big-endian encoding of the \<open>l\<close> low bytes of a keyword, and the value that a list
  of bytes encodes, most significant byte first.
\<close>

definition keyword_bytes :: "u32 \<Rightarrow> nat \<Rightarrow> u8 list" where
  "keyword_bytes k l = map (\<lambda>j. byte_of k (l - 1 - j)) [0..<l]"

fun be_word :: "u8 list \<Rightarrow> u32" where
  "be_word [] = 0"
| "be_word (b # bs) = push_bit (8 * length bs) (ucast b) OR be_word bs"

text \<open>A block read whose output is thrown away.\<close>

definition discard_output ::
  "fault + (u8 \<times> u8 list \<times> ring_buffer) \<Rightarrow> fault + (u8 \<times> ring_buffer)" where
  "discard_output r = (case r of Inl f \<Rightarrow> Inl f | Inr (status, out, rb) \<Rightarrow> Inr (status, rb))"

section \<open>Example states\<close>

text \<open>A buffer of capacity 4 that holds the three bytes \<open>41 AB CD\<close>, and an empty one.\<close>

definition three_of_four :: ring_buffer where
  "three_of_four =
     \<lparr>head = 0, tail = 3, lenght = 3, array_addr = [0x41, 0xAB, 0xCD, 0], max_length = 4\<rparr>"

definition empty_of_four :: ring_buffer where
  "empty_of_four = snd (Ring_Buffer_Init [0, 0, 0, 0] 4)"

text \<open>The same capacity with all four slots taken.\<close>

definition full_of_four :: ring_buffer where
  "full_of_four =
     \<lparr>head = 0, tail = 0, lenght = 4, array_addr = [0x41, 0xAB, 0xCD, 9], max_length = 4\<rparr>"

text \<open>What a two-byte keyword insertion leaves in a fresh buffer whose array held \<open>FF\<close>.\<close>

definition two_zero :: ring_buffer where
  "two_zero =
     \<lparr>head = 0, tail = 2, lenght = 2, array_addr = [0, 0, 0xFF, 0xFF], max_length = 4\<rparr>"

text \<open>A buffer from which the two bytes \<open>AB CD\<close> have been written and read again.\<close>

definition read_out :: ring_buffer where
  "read_out =
     \<lparr>head = 2, tail = 2, lenght = 0, array_addr = [0xAB, 0xCD, 0, 0], max_length = 4\<rparr>"

text \<open>Fifty bytes in a buffer of capacity 64.\<close>

definition fifty :: ring_buffer where
  "fifty =
     \<lparr>head = 0, tail = 50, lenght = 50, array_addr = replicate 64 0, max_length = 64\<rparr>"

text \<open>A buffer of the largest capacity, with its five bytes stored across the end.\<close>

definition top_edge :: ring_buffer where
  "top_edge =
     \<lparr>head = 0xFFFFFFFE, tail = 4, lenght = 5, array_addr = replicate 4294967295 0,
      max_length = 0xFFFFFFFF\<rparr>"

text \<open>One byte stored, and an empty buffer whose head and tail stand at the last slot.\<close>

definition one_of_four :: ring_buffer where
  "one_of_four =
     \<lparr>head = 0, tail = 1, lenght = 1, array_addr = [0x41, 0, 0, 0], max_length = 4\<rparr>"

definition empty_at_three :: ring_buffer where
  "empty_at_three =
     \<lparr>head = 3, tail = 3, lenght = 0, array_addr = [0, 0, 0, 0], max_length = 4\<rparr>"

text \<open>
  The scenario of the test: thirteen bytes written into a buffer of capacity 256, then the
  keyword \<open>0xCCFB22AA\<close> of length 4 inserted. And a small buffer in which a two-byte keyword
  lies across the end of the array.
\<close>

definition first_paragraph :: "u8 list" where
  "first_paragraph =
     [0x41, 0x42, 0x43, 0x44, 0x45, 0x46, 0x47, 0x48, 0x49, 0x4A, 0x4B, 0x0D, 0x0A]"

definition scenario_13 :: ring_buffer where
  "scenario_13 =
     \<lparr>head = 0, tail = 13, lenght = 13, array_addr = first_paragraph @ replicate 243 0,
      max_length = 256\<rparr>"

definition scenario_17 :: ring_buffer where
  "scenario_17 =
     \<lparr>head = 0, tail = 17, lenght = 17,
      array_addr = first_paragraph @ [0xCC, 0xFB, 0x22, 0xAA] @ replicate 239 0,
      max_length = 256\<rparr>"

definition wrapped_keyword :: ring_buffer where
  "wrapped_keyword =
     \<lparr>head = 2, tail = 1, lenght = 3, array_addr = [0xCD, 0, 0x41, 0xAB], max_length = 4\<rparr>"

section \<open>A failed call changes nothing\<close>

lemma Write_Byte_error:
  "Ring_Buffer_Write_Byte rb b = Inr (RING_BUFFER_ERROR, rb1) \<Longrightarrow> rb1 = rb"
  by (simp add: Ring_Buffer_Write_Byte_def RING_BUFFER_ERROR_def RING_BUFFER_SUCCESS_def Let_def
      split: if_splits)

lemma Read_Byte_empty: "Ring_Buffer_Read_Byte rb = Inr (None, rb1) \<Longrightarrow> rb1 = rb"
  by (simp add: Ring_Buffer_Read_Byte_def Let_def split: if_splits)

lemma Delete_error: "Ring_Buffer_Delete rb d = (RING_BUFFER_ERROR, rb1) \<Longrightarrow> rb1 = rb"
  by (simp add: Ring_Buffer_Delete_def RING_BUFFER_ERROR_def RING_BUFFER_SUCCESS_def Let_def
      split: if_splits)

lemma Write_String_error:
  assumes "Ring_Buffer_Write_String rb input n = Inr (RING_BUFFER_ERROR, rb1)"
  shows "rb1 = rb"
proof (cases "lenght rb + n > max_length rb")
  case True
  with assms show ?thesis by (simp add: Ring_Buffer_Write_String_def)
next
  case False
  then have "Ring_Buffer_Write_String rb input n \<noteq> Inr (RING_BUFFER_ERROR, rb1)"
    by (simp add: Ring_Buffer_Write_String_def RING_BUFFER_ERROR_def RING_BUFFER_SUCCESS_def
        Let_def split: sum.split prod.split)
  with assms show ?thesis by simp
qed

lemma Read_String_error:
  assumes "Ring_Buffer_Read_String rb n = Inr (RING_BUFFER_ERROR, out, rb1)"
  shows "rb1 = rb \<and> out = []"
proof (cases "n > lenght rb")
  case True
  with assms show ?thesis by (auto simp add: Ring_Buffer_Read_String_def)
next
  case False
  then have "Ring_Buffer_Read_String rb n \<noteq> Inr (RING_BUFFER_ERROR, out, rb1)"
    by (simp add: Ring_Buffer_Read_String_def RING_BUFFER_ERROR_def RING_BUFFER_SUCCESS_def
        Let_def split: sum.split prod.split)
  with assms show ?thesis by simp
qed

lemma Insert_Keyword_error:
  "Ring_Buffer_Insert_Keyword bo rb k l = Inr (RING_BUFFER_ERROR, rb1) \<Longrightarrow> rb1 = rb"
  by (cases bo) (auto simp: Ring_Buffer_Insert_Keyword_def Let_def split: if_splits
      dest: Write_String_error)

section \<open>The search reads only\<close>

lemma Get_Word_loop_frame:
  "Get_Word_loop rb rl i h d = Inr (w, rb1) \<Longrightarrow> rb1 = rb"
proof (induction rb rl i h d rule: Get_Word_loop.induct)
  case (1 rb rl i h d)
  show ?case
  proof (cases "i \<le> rl \<and> unat h < length (array_addr rb) \<and> 8 * (rl - i) < 32")
    case True
    with "1.prems" "1.IH" show ?thesis
      by (subst (asm) Get_Word_loop.simps) (simp add: Let_def)
  next
    case False
    with "1.prems" show ?thesis
      by (subst (asm) Get_Word_loop.simps) (auto split: if_splits)
  qed
qed

lemma Get_Word_frame:
  "Ring_Buffer_Get_Word rb h n = Inr (w, rb1) \<Longrightarrow> rb1 = rb"
  unfolding Ring_Buffer_Get_Word_def by (rule Get_Word_loop_frame)

lemma Find_Keyword_test_frame:
  "Find_Keyword_test rb k l t fh = Inr (hit, rb1) \<Longrightarrow> rb1 = rb"
  by (auto simp: Find_Keyword_test_def split: if_splits sum.splits dest: Get_Word_frame)

lemma Find_Keyword_loop_frame_aux:
  assumes "Find_Keyword_loop rb k l m t d fh = Some y"
  shows "\<forall>e rb1. y = Inr (e, rb1) \<longrightarrow> rb1 = rb"
  using assms
proof (induct rule: Find_Keyword_loop.raw_induct [rotated 1, consumes 1, case_names body])
  case (body loop rb k l m t d fh y)
  show ?case
  proof (cases "d \<le> m")
    case False
    with body(2) show ?thesis by auto
  next
    case True
    show ?thesis
    proof (cases "Find_Keyword_test rb k l t fh")
      case (Inl f)
      with True body(2) show ?thesis by auto
    next
      case (Inr p)
      obtain hit rb0 where p: "p = (hit, rb0)" by (cases p)
      with Inr have rb0: "rb0 = rb" by (auto dest: Find_Keyword_test_frame)
      show ?thesis
      proof (cases hit)
        case True
        with \<open>d \<le> m\<close> Inr p rb0 body(2) show ?thesis by auto
      next
        case False
        with \<open>d \<le> m\<close> Inr p rb0 body(2)
        have "loop rb k l m t (d + 1) (if fh + 1 > max_length rb - 1 then 0 else fh + 1) = Some y"
          by simp
        then show ?thesis by (rule body(1))
      qed
    qed
  qed
qed

lemma Find_Keyword_loop_frame:
  "Find_Keyword_loop rb k l m t d fh = Some (Inr (e, rb1)) \<Longrightarrow> rb1 = rb"
  by (drule Find_Keyword_loop_frame_aux) simp

lemma Find_Keyword_exit_frame:
  "Ring_Buffer_Find_Keyword_exit rb k l = Some (Inr (e, rb1)) \<Longrightarrow> rb1 = rb"
  by (auto simp: Ring_Buffer_Find_Keyword_exit_def Let_def split: if_splits
      dest: Find_Keyword_loop_frame)

lemma Find_Keyword_frame:
  "Ring_Buffer_Find_Keyword rb k l = Some (Inr (d, rb1)) \<Longrightarrow> rb1 = rb"
  by (auto simp: Ring_Buffer_Find_Keyword_def split: option.splits sum.splits find_exit.splits
      dest: Find_Keyword_exit_frame)

lemma find_in_three_of_four:
  "Ring_Buffer_Find_Keyword three_of_four 0xABCD 2 = Some (Inr (2, three_of_four))"
  by code_simp

lemma find_nothing_in_three_of_four:
  "Ring_Buffer_Find_Keyword three_of_four 0x1234 2 = Some (Inr (0, three_of_four))"
  by code_simp

lemma get_word_in_three_of_four:
  "Ring_Buffer_Get_Word three_of_four 1 2 = Inr (0xABCD, three_of_four)"
  by code_simp

text \<open>
  Claim C7: an operation that fails leaves head, tail, length and the stored bytes as they
  were. Failing is returning \<open>RING_BUFFER_ERROR\<close>; for \<open>Ring_Buffer_Read_Byte\<close>, which has no
  status, it is the call on an empty buffer. \<open>Ring_Buffer_Read_String\<close> stores nothing at
  the output address either.
\<close>

theorem failed_operation_leaves_state:
  "(Ring_Buffer_Write_Byte rb b = Inr (RING_BUFFER_ERROR, r_wb) \<longrightarrow> r_wb = rb) \<and>
   (Ring_Buffer_Read_Byte rb = Inr (None, r_rb) \<longrightarrow> r_rb = rb) \<and>
   (Ring_Buffer_Write_String rb input n = Inr (RING_BUFFER_ERROR, r_ws) \<longrightarrow> r_ws = rb) \<and>
   (Ring_Buffer_Read_String rb m = Inr (RING_BUFFER_ERROR, out, r_rs) \<longrightarrow> r_rs = rb \<and> out = []) \<and>
   (Ring_Buffer_Delete rb d = (RING_BUFFER_ERROR, r_de) \<longrightarrow> r_de = rb) \<and>
   (Ring_Buffer_Insert_Keyword bo rb k l = Inr (RING_BUFFER_ERROR, r_ik) \<longrightarrow> r_ik = rb) \<and>
   (Ring_Buffer_Find_Keyword rb k l = Some (Inr (ucast RING_BUFFER_ERROR, r_fk)) \<longrightarrow> r_fk = rb)"
proof (intro conjI impI)
  show "r_wb = rb" if "Ring_Buffer_Write_Byte rb b = Inr (RING_BUFFER_ERROR, r_wb)"
    using that by (rule Write_Byte_error)
  show "r_rb = rb" if "Ring_Buffer_Read_Byte rb = Inr (None, r_rb)"
    using that by (rule Read_Byte_empty)
  show "r_ws = rb" if "Ring_Buffer_Write_String rb input n = Inr (RING_BUFFER_ERROR, r_ws)"
    using that by (rule Write_String_error)
  show "r_rs = rb" and "out = []"
    if "Ring_Buffer_Read_String rb m = Inr (RING_BUFFER_ERROR, out, r_rs)"
    using Read_String_error [OF that] by simp_all
  show "r_de = rb" if "Ring_Buffer_Delete rb d = (RING_BUFFER_ERROR, r_de)"
    using that by (rule Delete_error)
  show "r_ik = rb" if "Ring_Buffer_Insert_Keyword bo rb k l = Inr (RING_BUFFER_ERROR, r_ik)"
    using that by (rule Insert_Keyword_error)
  show "r_fk = rb"
    if "Ring_Buffer_Find_Keyword rb k l = Some (Inr (ucast RING_BUFFER_ERROR, r_fk))"
    using that by (rule Find_Keyword_frame)
qed

theorem failed_operation_leaves_state_witness:
  "Ring_Buffer_Write_Byte three_of_four 9 = Inr (RING_BUFFER_ERROR, three_of_four) \<and>
   Ring_Buffer_Read_Byte empty_of_four = Inr (None, empty_of_four) \<and>
   Ring_Buffer_Write_String three_of_four [1, 2] 2 = Inr (RING_BUFFER_ERROR, three_of_four) \<and>
   Ring_Buffer_Read_String three_of_four 4 = Inr (RING_BUFFER_ERROR, [], three_of_four) \<and>
   Ring_Buffer_Delete three_of_four 4 = (RING_BUFFER_ERROR, three_of_four) \<and>
   Ring_Buffer_Insert_Keyword LittleEndian three_of_four 0xCCFB22AA 4
     = Inr (RING_BUFFER_ERROR, three_of_four) \<and>
   Ring_Buffer_Find_Keyword three_of_four 0x1234 2
     = Some (Inr (ucast RING_BUFFER_ERROR, three_of_four))"
proof -
  have wb: "Ring_Buffer_Write_Byte three_of_four 9 = Inr (RING_BUFFER_ERROR, three_of_four)"
    by (simp add: Ring_Buffer_Write_Byte_def three_of_four_def)
  have rby: "Ring_Buffer_Read_Byte empty_of_four = Inr (None, empty_of_four)"
    by (simp add: Ring_Buffer_Read_Byte_def empty_of_four_def Ring_Buffer_Init_def)
  have ws: "Ring_Buffer_Write_String three_of_four [1, 2] 2
              = Inr (RING_BUFFER_ERROR, three_of_four)"
    by (simp add: Ring_Buffer_Write_String_def three_of_four_def)
  have rs: "Ring_Buffer_Read_String three_of_four 4 = Inr (RING_BUFFER_ERROR, [], three_of_four)"
    by (simp add: Ring_Buffer_Read_String_def three_of_four_def)
  have de: "Ring_Buffer_Delete three_of_four 4 = (RING_BUFFER_ERROR, three_of_four)"
    by (simp add: Ring_Buffer_Delete_def three_of_four_def)
  have ik: "Ring_Buffer_Insert_Keyword LittleEndian three_of_four 0xCCFB22AA 4
              = Inr (RING_BUFFER_ERROR, three_of_four)"
    by (simp add: Ring_Buffer_Insert_Keyword_def Ring_Buffer_Write_String_def three_of_four_def)
  have fk: "Ring_Buffer_Find_Keyword three_of_four 0x1234 2
              = Some (Inr (ucast RING_BUFFER_ERROR, three_of_four))"
    by (simp add: find_nothing_in_three_of_four RING_BUFFER_ERROR_def)
  show ?thesis
    using failed_operation_leaves_state
            [where rb = three_of_four and b = 9 and r_wb = three_of_four
               and input = "[1, 2]" and n = 2 and r_ws = three_of_four
               and m = 4 and out = "[]" and r_rs = three_of_four
               and d = 4 and r_de = three_of_four
               and bo = LittleEndian and k = "0xCCFB22AA" and l = 4 and r_ik = three_of_four]
          failed_operation_leaves_state
            [where rb = three_of_four and k = "0x1234" and l = 2 and r_fk = three_of_four]
          failed_operation_leaves_state
            [where rb = empty_of_four and r_rb = empty_of_four]
          wb rby ws rs de ik fk
    by simp
qed

text \<open>
  Claim C9: \<open>Ring_Buffer_Find_Keyword\<close> and its helper \<open>Ring_Buffer_Get_Word\<close> never change the
  buffer: whatever they return, with a distance or with \<open>RING_BUFFER_ERROR\<close>, the state
  after the call (head, tail, length, array and capacity) is the state before it.
\<close>

theorem find_keyword_reads_only:
  "(Ring_Buffer_Find_Keyword rb keyword keyword_lenght = Some (Inr (distance, rb1))
      \<longrightarrow> rb1 = rb) \<and>
   (Ring_Buffer_Get_Word rb h read_lenght = Inr (w, rb2) \<longrightarrow> rb2 = rb)"
  using Find_Keyword_frame Get_Word_frame by blast

theorem find_keyword_reads_only_witness:
  "Ring_Buffer_Find_Keyword three_of_four 0xABCD 2 = Some (Inr (2, three_of_four)) \<and>
   Ring_Buffer_Get_Word three_of_four 1 2 = Inr (0xABCD, three_of_four)"
  using find_keyword_reads_only [of three_of_four "0xABCD" 2 2 three_of_four 1 2 "0xABCD"
                                    three_of_four]
        find_in_three_of_four get_word_in_three_of_four
  by simp

section \<open>The capacity\<close>

text \<open>
  Claim C1 (the stored length never exceeds capacity - 1, and a write at that length fails)
  does not hold of the code. From a fresh buffer of capacity 4, a block write of three bytes
  reaches length 3 = capacity - 1; a further block write of one byte is accepted, since
  \<open>Ring_Buffer_Write_String\<close> compares with \<open>max_length\<close>, and the length becomes 4. The test
  of \<open>Ring_Buffer_Write_Byte\<close>, an equality with \<open>max_length - 1\<close>, then no longer holds: the
  byte write succeeds, replaces the oldest unread byte and makes the length 5.
\<close>

theorem block_write_takes_reserved_slot:
  "Ring_Buffer_Write_String empty_of_four [0x41, 0xAB, 0xCD] 3
     = Inr (RING_BUFFER_SUCCESS, three_of_four) \<and>
   Ring_Buffer_Write_String three_of_four [9] 1 = Inr (RING_BUFFER_SUCCESS, full_of_four) \<and>
   Ring_Buffer_Write_Byte full_of_four 7
     = Inr (RING_BUFFER_SUCCESS,
            \<lparr>head = 0, tail = 1, lenght = 5, array_addr = [7, 0xAB, 0xCD, 9], max_length = 4\<rparr>)"
  by (simp add: Ring_Buffer_Write_String_def Ring_Buffer_Write_Byte_def Ring_Buffer_Init_def
      empty_of_four_def three_of_four_def full_of_four_def memcpy_to_def)

section \<open>Deleting and reading\<close>

lemma unat_u8_less: "unat (n :: u8) < 256"
  using unsigned_less [of n] by simp

lemma unat_ucast_u8: "unat (ucast (n :: u8) :: u32) = unat n"
proof -
  have "unat n < 2 ^ 32"
    using unat_u8_less [of n] by simp
  then show ?thesis
    by (simp add: unsigned_ucast_eq take_bit_nat_eq_self)
qed

lemma delete_as_read:
  fixes n :: u8
  assumes arr: "unat (max_length rb) \<le> length (array_addr rb)"
    and hd: "head rb < max_length rb" and len: "lenght rb \<le> max_length rb"
    and cap: "unat (max_length rb) \<le> 2 ^ 32 - 256"
  shows "discard_output (Ring_Buffer_Read_String rb (ucast n)) = Inr (Ring_Buffer_Delete rb n)"
proof -
  define N :: u32 where "N = ucast n"
  define H M L where "H = unat (head rb)" and "M = unat (max_length rb)"
    and "L = unat (lenght rb)"
  have N256: "unat N < 256"
    unfolding N_def by (simp add: unat_ucast_u8 unat_u8_less)
  from hd len arr have HM: "H < M" and LM: "L \<le> M" and arr: "M \<le> length (array_addr rb)"
    by (simp_all add: H_def M_def L_def word_less_nat_alt word_le_nat_alt)
  from cap have M: "M \<le> 2 ^ 32 - 256" by (simp add: M_def)
  have sum: "unat (head rb + N) = H + unat N"
    unfolding H_def using HM M N256 by (subst unat_add_lem [THEN iffD1]) (simp_all add: H_def)
  have diff: "unat (max_length rb - head rb) = M - H"
    unfolding M_def H_def using HM
    by (subst unat_sub) (simp_all add: word_le_nat_alt H_def M_def)
  show ?thesis
  proof (cases "lenght rb < N")
    case True
    then show ?thesis
      by (simp add: Ring_Buffer_Read_String_def Ring_Buffer_Delete_def discard_output_def N_def)
  next
    case False
    then have NL: "unat N \<le> L" by (simp add: word_less_nat_alt L_def)
    consider (split) "H + unat N > M" | (exact) "H + unat N = M" | (inside) "H + unat N < M"
      by linarith
    then show ?thesis
    proof cases
      case split
      then have c1: "N > max_length rb - head rb" and c2: "head rb + N \<ge> max_length rb"
        using diff sum HM by (simp_all add: word_less_nat_alt word_le_nat_alt M_def)
      have le: "max_length rb - head rb \<le> N" using c1 by simp
      have b: "N - (max_length rb - head rb) \<noteq> 0" using c1 by simp
      have ub: "unat (N - (max_length rb - head rb)) = unat N - (M - H)"
        using le diff by (simp add: unat_sub)
      show ?thesis
        using False c1 c2 b ub diff split NL LM arr HM
        by (simp add: Ring_Buffer_Read_String_def Ring_Buffer_Delete_def discard_output_def
            memcpy_from_def Let_def N_def [symmetric] H_def [symmetric] M_def [symmetric])
    next
      case exact
      then have c1: "\<not> N > max_length rb - head rb" and c2: "head rb + N \<ge> max_length rb"
        using diff sum HM by (simp_all add: word_less_nat_alt word_le_nat_alt M_def)
      have eq: "head rb + N = max_length rb"
        using exact sum by (simp add: word_unat_eq_iff M_def)
      then have z: "N - (max_length rb - head rb) = 0"
        by (simp add: eq [symmetric])
      show ?thesis
        using False c1 c2 eq z exact NL LM arr HM
        by (simp add: Ring_Buffer_Read_String_def Ring_Buffer_Delete_def discard_output_def
            memcpy_from_def Let_def N_def [symmetric] H_def [symmetric] M_def [symmetric])
    next
      case inside
      then have c1: "\<not> N > max_length rb - head rb" and c2: "\<not> head rb + N \<ge> max_length rb"
        using diff sum HM by (simp_all add: word_less_nat_alt word_le_nat_alt M_def)
      have ne: "head rb + N \<noteq> max_length rb"
        using c2 by auto
      show ?thesis
        using False c1 c2 ne inside NL LM arr HM
        by (simp add: Ring_Buffer_Read_String_def Ring_Buffer_Delete_def discard_output_def
            memcpy_from_def Let_def N_def [symmetric] H_def [symmetric] M_def [symmetric])
    qed
  qed
qed

lemma rb_ok_three_of_four: "rb_ok three_of_four"
  by (simp add: rb_ok_def three_of_four_def)

text \<open>
  Claim C6 as the specification states it, for every \<open>n\<close>: delete(n) and a block read of
  \<open>n\<close> bytes whose output is discarded end in the same state, and one succeeds exactly
  when the other does. The parameter of \<open>Ring_Buffer_Delete\<close> is a \<open>uint8_t\<close>, that of
  \<open>Ring_Buffer_Read_String\<close> a \<open>uint32_t\<close>; the call converts \<open>n = 300\<close> to 44. With 50 bytes
  stored, the deletion succeeds and removes 44 of them, and the read of 300 bytes fails.
\<close>

theorem delete_length_is_a_byte_counterexample:
  "Ring_Buffer_Delete fifty (ucast (300 :: u32))
     = (RING_BUFFER_SUCCESS, fifty\<lparr>head := 44, lenght := 6\<rparr>) \<and>
   Ring_Buffer_Read_String fifty 300 = Inr (RING_BUFFER_ERROR, [], fifty)"
  by (simp add: Ring_Buffer_Delete_def Ring_Buffer_Read_String_def fifty_def)

text \<open>
  Claim C6, amended: in every state that satisfies the invariant, for every \<open>n\<close> that the
  8-bit parameter of \<open>Ring_Buffer_Delete\<close> holds and a capacity of at most \<open>2^32 - 256\<close>, the
  deletion returns the status and the state of the block read of \<open>n\<close> bytes with its output
  discarded, and it succeeds exactly when \<open>n\<close> is at most the stored length.
\<close>

theorem delete_is_read_discarding_output:
  fixes n :: u8
  assumes "rb_ok rb" and "unat (max_length rb) \<le> 2 ^ 32 - 256"
  shows "discard_output (Ring_Buffer_Read_String rb (ucast n)) = Inr (Ring_Buffer_Delete rb n) \<and>
         (fst (Ring_Buffer_Delete rb n) = RING_BUFFER_SUCCESS \<longleftrightarrow> ucast n \<le> lenght rb)"
proof
  from assms show "discard_output (Ring_Buffer_Read_String rb (ucast n))
                     = Inr (Ring_Buffer_Delete rb n)"
    by (intro delete_as_read) (simp_all add: rb_ok_def)
  show "fst (Ring_Buffer_Delete rb n) = RING_BUFFER_SUCCESS \<longleftrightarrow> ucast n \<le> lenght rb"
    by (auto simp: Ring_Buffer_Delete_def Let_def RING_BUFFER_SUCCESS_def RING_BUFFER_ERROR_def)
qed

theorem delete_is_read_discarding_output_witness:
  "rb_ok three_of_four \<and> unat (max_length three_of_four) \<le> 2 ^ 32 - 256 \<and>
   discard_output (Ring_Buffer_Read_String three_of_four (ucast (2 :: u8)))
     = Inr (Ring_Buffer_Delete three_of_four 2) \<and>
   Ring_Buffer_Delete three_of_four 2
     = (RING_BUFFER_SUCCESS, three_of_four\<lparr>head := 2, lenght := 1\<rparr>)"
proof -
  have cap: "unat (max_length three_of_four) \<le> 2 ^ 32 - 256"
    by (simp add: three_of_four_def)
  have del: "Ring_Buffer_Delete three_of_four 2
               = (RING_BUFFER_SUCCESS, three_of_four\<lparr>head := 2, lenght := 1\<rparr>)"
    by (simp add: Ring_Buffer_Delete_def three_of_four_def)
  show ?thesis
    using delete_is_read_discarding_output [OF rb_ok_three_of_four cap, of 2]
      rb_ok_three_of_four cap del
    by simp
qed

text \<open>
  The bound on the capacity is needed. \<open>Ring_Buffer_Delete\<close> tests \<open>head + lenght >= max_length\<close>
  in 32 bits; with a capacity of \<open>0xFFFFFFFF\<close> and \<open>head = 0xFFFFFFFE\<close> the sum for \<open>n = 5\<close>
  wraps to 3 and the new head is 3, where the block read, which compares with
  \<open>max_length - head\<close>, ends at head 4.
\<close>

lemma delete_wraps_at_top_of_range:
  "rb_ok top_edge \<and>
   Ring_Buffer_Delete top_edge 5 = (RING_BUFFER_SUCCESS, top_edge\<lparr>head := 3, lenght := 0\<rparr>) \<and>
   discard_output (Ring_Buffer_Read_String top_edge 5)
     = Inr (RING_BUFFER_SUCCESS, top_edge\<lparr>head := 4, lenght := 0\<rparr>)"
  by (simp add: rb_ok_def Ring_Buffer_Delete_def Ring_Buffer_Read_String_def top_edge_def
      memcpy_from_def discard_output_def)

section \<open>Keyword lengths outside 1 to 4\<close>

lemma Write_String_nothing:
  assumes "rb_ok rb"
  shows "Ring_Buffer_Write_String rb input 0 = Inr (RING_BUFFER_SUCCESS, rb)"
proof -
  from assms have g: "\<not> lenght rb > max_length rb" and t: "tail rb \<noteq> max_length rb"
    and l: "unat (tail rb) \<le> length (array_addr rb)"
    by (auto simp: rb_ok_def word_less_nat_alt word_le_nat_alt)
  then show ?thesis
    by (simp add: Ring_Buffer_Write_String_def memcpy_to_def Let_def)
qed

lemma Write_String_beyond_source:
  assumes "length input < unat n"
  shows "Ring_Buffer_Write_String rb input n = Inr (RING_BUFFER_ERROR, rb) \<or>
         Ring_Buffer_Write_String rb input n = Inl OutOfBounds"
proof (cases "lenght rb + n > max_length rb")
  case True
  then show ?thesis by (simp add: Ring_Buffer_Write_String_def)
next
  case False
  show ?thesis
  proof (cases "max_length rb - tail rb < n")
    case split: True
    then have le: "max_length rb - tail rb \<le> n" by simp
    have "unat (max_length rb - tail rb) + unat (n - (max_length rb - tail rb)) = unat n"
      using le by (simp add: unat_sub word_le_nat_alt)
    with assms have "\<not> (unat (max_length rb - tail rb) \<le> length input \<and>
        unat (n - (max_length rb - tail rb)) \<le> length input - unat (max_length rb - tail rb))"
      by linarith
    with False split show ?thesis
      by (auto simp: Ring_Buffer_Write_String_def memcpy_to_def Let_def split: sum.splits)
  next
    case nosplit: False
    with False assms show ?thesis
      by (simp add: Ring_Buffer_Write_String_def memcpy_to_def Let_def)
  qed
qed

text \<open>
  Claim C8 as the specification states it: a keyword length outside 1 to 4 makes
  \<open>Ring_Buffer_Insert_Keyword\<close> fail. The code has no such check; with length 0 the
  insertion is a block write of no bytes, which succeeds.
\<close>

theorem insert_keyword_length_zero_counterexample:
  "Ring_Buffer_Insert_Keyword LittleEndian empty_of_four 0xCCFB22AA 0
     = Inr (RING_BUFFER_SUCCESS, empty_of_four)"
  by (simp add: Ring_Buffer_Insert_Keyword_def Ring_Buffer_Write_String_def
      Ring_Buffer_Init_def empty_of_four_def memcpy_to_def)

text \<open>
  Claim C8, amended: the keyword length is not checked. For a length outside 1 to 4 the
  search evaluates an undefined shift before it looks at the buffer; the insertion of
  length 0 (little-endian body, state within the invariant) succeeds and changes nothing;
  the insertion of a length above 4 either fails in the space check of the block write,
  which returns \<open>RING_BUFFER_ERROR\<close>, or reads beyond the four bytes of \<open>keyword_byte\<close>.
\<close>

theorem keyword_length_is_not_checked:
  assumes "keyword_lenght = 0 \<or> keyword_lenght > 4"
  shows "Ring_Buffer_Find_Keyword rb keyword keyword_lenght = Some (Inl ShiftOutOfRange) \<and>
         (keyword_lenght = 0 \<and> rb_ok rb \<longrightarrow>
            Ring_Buffer_Insert_Keyword LittleEndian rb keyword keyword_lenght
              = Inr (RING_BUFFER_SUCCESS, rb)) \<and>
         (keyword_lenght > 4 \<longrightarrow>
            Ring_Buffer_Insert_Keyword bo rb keyword keyword_lenght = Inr (RING_BUFFER_ERROR, rb) \<or>
            Ring_Buffer_Insert_Keyword bo rb keyword keyword_lenght = Inl OutOfBounds)"
proof (intro conjI impI)
  from assms
  show "Ring_Buffer_Find_Keyword rb keyword keyword_lenght = Some (Inl ShiftOutOfRange)"
    by (auto simp: Ring_Buffer_Find_Keyword_def Ring_Buffer_Find_Keyword_exit_def Let_def)
  show "Ring_Buffer_Insert_Keyword LittleEndian rb keyword keyword_lenght
          = Inr (RING_BUFFER_SUCCESS, rb)"
    if "keyword_lenght = 0 \<and> rb_ok rb"
    using that by (simp add: Ring_Buffer_Insert_Keyword_def Let_def Write_String_nothing)
  show "Ring_Buffer_Insert_Keyword bo rb keyword keyword_lenght = Inr (RING_BUFFER_ERROR, rb) \<or>
        Ring_Buffer_Insert_Keyword bo rb keyword keyword_lenght = Inl OutOfBounds"
    if big: "keyword_lenght > 4"
  proof -
    from big have "4 < unat keyword_lenght"
      by (simp add: word_less_nat_alt)
    then have n: "4 < unat (ucast keyword_lenght :: u32)"
      by (simp add: unat_ucast_u8)
    show ?thesis
    proof (cases bo)
      case LittleEndian
      with n show ?thesis
        using Write_String_beyond_source
                [of "[byte_of keyword 3, byte_of keyword 2, byte_of keyword 1, byte_of keyword 0]"
                    "ucast keyword_lenght" rb]
        by (simp add: Ring_Buffer_Insert_Keyword_def Let_def object_bytes_def)
    next
      case BigEndian
      from big have nz: "keyword_lenght \<noteq> 0" by auto
      have "length (drop (unat keyword_lenght - 1)
              [byte_of keyword 3, byte_of keyword 2, byte_of keyword 1, byte_of keyword 0])
              < unat (ucast keyword_lenght :: u32)"
        using n by simp
      from Write_String_beyond_source [OF this, of rb] BigEndian nz show ?thesis
        by (simp add: Ring_Buffer_Insert_Keyword_def Let_def object_bytes_def)
    qed
  qed
qed

lemma rb_ok_empty_of_four: "rb_ok empty_of_four"
  by (simp add: rb_ok_def empty_of_four_def Ring_Buffer_Init_def)

theorem keyword_length_is_not_checked_witness:
  "Ring_Buffer_Find_Keyword empty_of_four 0xCCFB22AA 0 = Some (Inl ShiftOutOfRange) \<and>
   Ring_Buffer_Insert_Keyword LittleEndian empty_of_four 0xCCFB22AA 0
     = Inr (RING_BUFFER_SUCCESS, empty_of_four) \<and>
   Ring_Buffer_Find_Keyword three_of_four 0xCCFB22AA 5 = Some (Inl ShiftOutOfRange) \<and>
   Ring_Buffer_Insert_Keyword LittleEndian three_of_four 0xCCFB22AA 5
     = Inr (RING_BUFFER_ERROR, three_of_four) \<and>
   Ring_Buffer_Insert_Keyword LittleEndian fifty 0xCCFB22AA 5 = Inl OutOfBounds"
proof -
  have a: "(0 :: u8) = 0 \<or> (0 :: u8) > 4" by simp
  have b: "(5 :: u8) = 0 \<or> (5 :: u8) > 4" by simp
  have e: "Ring_Buffer_Insert_Keyword LittleEndian three_of_four 0xCCFB22AA 5 \<noteq> Inl OutOfBounds"
    by (simp add: Ring_Buffer_Insert_Keyword_def Ring_Buffer_Write_String_def three_of_four_def)
  have f: "Ring_Buffer_Insert_Keyword LittleEndian fifty 0xCCFB22AA 5
             \<noteq> Inr (RING_BUFFER_ERROR, fifty)"
    by (simp add: Ring_Buffer_Insert_Keyword_def Ring_Buffer_Write_String_def fifty_def
        memcpy_to_def)
  show ?thesis
    using keyword_length_is_not_checked [OF a, of empty_of_four "0xCCFB22AA" LittleEndian]
      keyword_length_is_not_checked [OF b, of three_of_four "0xCCFB22AA" LittleEndian]
      keyword_length_is_not_checked [OF b, of fifty "0xCCFB22AA" LittleEndian]
      rb_ok_empty_of_four e f
    by simp
qed

section \<open>Block write and block read\<close>

lemma memcpy_to_Inr:
  assumes "off + n \<le> length arr" and "n \<le> length src"
  shows "memcpy_to arr off src n = Inr (take off arr @ take n src @ drop (off + n) arr)"
  using assms by (simp add: memcpy_to_def)

lemma blit_nth:
  assumes "off + n \<le> length arr" and "n \<le> length src" and "j < length arr"
  shows "(take off arr @ take n src @ drop (off + n) arr) ! j
           = (if off \<le> j \<and> j < off + n then src ! (j - off) else arr ! j)"
  using assms by (auto simp: nth_append min_def)

lemma blit_length:
  assumes "off + n \<le> length arr" and "n \<le> length src"
  shows "length (take off arr @ take n src @ drop (off + n) arr) = length arr"
  using assms by simp

lemma mod_window_neq:
  fixes i j M :: nat
  assumes "i < j" and "j < i + M"
  shows "(H + i) mod M \<noteq> (H + j) mod M"
proof
  assume "(H + i) mod M = (H + j) mod M"
  then have "(H + j) mod M = (H + i) mod M" by simp
  then have "M dvd (H + j) - (H + i)"
    using assms by (subst (asm) mod_eq_dvd_iff_nat) simp_all
  then have "M dvd j - i" by simp
  moreover have "0 < j - i" and "j - i < M" using assms by simp_all
  ultimately show False
    using nat_dvd_not_less by blast
qed

text \<open>The array after the one or two copies of a block write, on naturals.\<close>

lemma ring_blit:
  fixes T M n :: nat
  assumes T: "T < M" and M: "M \<le> length arr" and n: "n \<le> M" and B: "length B = n"
  defines "a \<equiv> (if M - T < n then M - T else n)"
  defines "arr1 \<equiv> take T arr @ take a B @ drop (T + a) arr"
  defines "arr2 \<equiv> (if M - T < n then take (n - a) (drop a B) @ drop (n - a) arr1 else arr1)"
  shows "length arr2 = length arr"
    and "\<And>k. k < n \<Longrightarrow> arr2 ! ((T + k) mod M) = B ! k"
    and "\<And>j. j < length arr \<Longrightarrow> \<forall>k<n. j \<noteq> (T + k) mod M \<Longrightarrow> arr2 ! j = arr ! j"
proof -
  have aT: "T + a \<le> length arr" and aB: "a \<le> length B" and an: "a \<le> n"
    using assms by (auto simp: a_def)
  have len1: "length arr1 = length arr"
    unfolding arr1_def using aT aB by simp
  have nth1: "arr1 ! j = (if T \<le> j \<and> j < T + a then B ! (j - T) else arr ! j)"
    if "j < length arr" for j
    unfolding arr1_def using aT aB that by (rule blit_nth)
  show len2: "length arr2 = length arr"
    using len1 an n M B by (auto simp: arr2_def)
  have nth2: "arr2 ! j = (if M - T < n \<and> j < n - a then B ! (a + j) else arr1 ! j)"
    if "j < length arr" for j
    using that len1 an B n M by (auto simp: arr2_def nth_append)
  show "arr2 ! ((T + k) mod M) = B ! k" if "k < n" for k
  proof (cases "T + k < M")
    case True
    then have pos: "(T + k) mod M = T + k" by simp
    have ka: "k < a" using True that by (auto simp: a_def)
    have "\<not> (M - T < n \<and> T + k < n - a)"
      using T n by (auto simp: a_def)
    then show ?thesis
      using pos nth2 [of "T + k"] nth1 [of "T + k"] True M ka by auto
  next
    case False
    then have pos: "(T + k) mod M = T + k - M"
      using T n that by (simp add: mod_if)
    from False that have split: "M - T < n" by simp
    then have a: "a = M - T" by (simp add: a_def)
    have "T + k - M < n - a" using False that a T by simp
    moreover have "a + (T + k - M) = k" using False a T by simp
    moreover have "T + k - M < length arr" using T M n that by simp
    ultimately show ?thesis
      using pos nth2 [of "T + k - M"] split by simp
  qed
  show "arr2 ! j = arr ! j" if j: "j < length arr" and out: "\<forall>k<n. j \<noteq> (T + k) mod M" for j
  proof -
    have n1: "\<not> (T \<le> j \<and> j < T + a)"
    proof
      assume h: "T \<le> j \<and> j < T + a"
      then have "j - T < n" using an by linarith
      moreover have "(T + (j - T)) mod M = j"
        using h aT an T M n by (auto simp: a_def split: if_splits)
      ultimately show False using out by auto
    qed
    have n2: "\<not> (M - T < n \<and> j < n - a)"
    proof
      assume h: "M - T < n \<and> j < n - a"
      then have a: "a = M - T" by (simp add: a_def)
      have l: "a + j < n" using h by linarith
      have e: "T + (a + j) = M + j" using a T by linarith
      have jM: "j < M" using h n by linarith
      have m: "(T + (a + j)) mod M = j" unfolding e using jM by simp
      show False using out l m by auto
    qed
    show ?thesis
      using nth2 [OF j] nth1 [OF j] n1 n2 by simp
  qed
qed


lemma Write_String_result:
  assumes ok: "rb_ok rb"
    and fits: "unat (lenght rb) + unat len \<le> unat (max_length rb)"
    and B: "length B = unat len"
  defines "T \<equiv> unat (tail rb)" and "M \<equiv> unat (max_length rb)" and "n \<equiv> unat len"
  shows "\<exists>arr'. Ring_Buffer_Write_String rb B len
            = Inr (RING_BUFFER_SUCCESS,
                   rb\<lparr>array_addr := arr', lenght := lenght rb + len,
                      tail := of_nat ((T + n) mod M)\<rparr>) \<and>
          length arr' = length (array_addr rb) \<and>
          (\<forall>k<n. arr' ! ((T + k) mod M) = B ! k) \<and>
          (\<forall>j<length (array_addr rb). (\<forall>k<n. j \<noteq> (T + k) mod M) \<longrightarrow> arr' ! j = array_addr rb ! j)"
proof -
  from ok have TM: "T < M" and Marr: "M \<le> length (array_addr rb)"
    by (simp_all add: rb_ok_def T_def M_def word_less_nat_alt)
  from fits have nM: "n \<le> M" by (simp add: n_def M_def)
  have Bn: "length B = n" using B by (simp add: n_def)
  have M32: "M < 2 ^ 32" unfolding M_def using unsigned_less [of "max_length rb"] by simp
  have sumL: "unat (lenght rb + len) = unat (lenght rb) + n"
    unfolding n_def using fits M32 by (subst unat_add_lem [THEN iffD1]) (simp_all add: M_def)
  have guard: "\<not> lenght rb + len > max_length rb"
    using sumL fits by (simp add: word_less_nat_alt n_def)
  have diff: "unat (max_length rb - tail rb) = M - T"
    unfolding M_def T_def using TM
    by (subst unat_sub) (simp_all add: word_le_nat_alt T_def M_def)
  define a where "a = (if M - T < n then M - T else n)"
  define arr1 where "arr1 = take T (array_addr rb) @ take a B @ drop (T + a) (array_addr rb)"
  define arr2 where
    "arr2 = (if M - T < n then take (n - a) (drop a B) @ drop (n - a) arr1 else arr1)"
  note blit = ring_blit [OF TM Marr nM Bn, folded a_def arr1_def, folded arr2_def]
  have res: "Ring_Buffer_Write_String rb B len
            = Inr (RING_BUFFER_SUCCESS,
                   rb\<lparr>array_addr := arr2, lenght := lenght rb + len,
                      tail := of_nat ((T + n) mod M)\<rparr>)"
  proof (cases "M - T < n")
    case True
    then have c: "max_length rb - tail rb < len"
      using diff by (simp add: word_less_nat_alt n_def)
    then have le: "max_length rb - tail rb \<le> len" by simp
    have ub: "unat (len - (max_length rb - tail rb)) = n - (M - T)"
      using le diff by (simp add: unat_sub n_def)
    have bnz: "len - (max_length rb - tail rb) \<noteq> 0"
      using c by simp
    have a: "a = M - T" using True by (simp add: a_def)
    have m1: "memcpy_to (array_addr rb) T B (M - T) = Inr arr1"
      unfolding arr1_def a using TM Marr True Bn by (intro memcpy_to_Inr) simp_all
    have len1: "length arr1 = length (array_addr rb)"
      unfolding arr1_def a using TM Marr True Bn by simp
    have m2: "memcpy_to arr1 0 (drop (M - T) B) (n - (M - T)) = Inr arr2"
      using True a len1 nM Marr Bn by (simp add: memcpy_to_def arr2_def)
    have e: "T + n = M + (n - (M - T))" using True TM by linarith
    have lt: "n - (M - T) < M" using TM nM True by linarith
    have "(T + n) mod M = n - (M - T)"
      unfolding e using lt by simp
    then have "(T + n) mod M = unat (len - (max_length rb - tail rb))"
      using ub by simp
    then have tl: "len - (max_length rb - tail rb) = of_nat ((T + n) mod M)"
      by simp
    show ?thesis
      using guard c bnz diff ub m1 m2 tl
      by (simp add: Ring_Buffer_Write_String_def Let_def T_def [symmetric])
  next
    case False
    then have c: "\<not> max_length rb - tail rb < len"
      using diff by (simp add: word_less_nat_alt n_def)
    have a: "a = n" using False by (simp add: a_def)
    have m1: "memcpy_to (array_addr rb) T B n = Inr arr2"
      using False a TM Marr Bn by (simp add: memcpy_to_def arr2_def arr1_def)
    have M32': "T + n < 2 ^ 32" using False TM M32 by simp
    have sumT: "unat (tail rb + len) = T + n"
      unfolding T_def n_def using M32'
      by (subst unat_add_lem [THEN iffD1]) (simp_all add: T_def n_def)
    have tl: "(if tail rb + len = max_length rb then 0 else tail rb + len)
                = of_nat ((T + n) mod M)"
    proof (cases "T + n = M")
      case True
      then have "tail rb + len = max_length rb"
        using sumT by (simp add: word_unat_eq_iff M_def)
      with True show ?thesis by simp
    next
      case ne: False
      then have "tail rb + len \<noteq> max_length rb"
        using sumT by (auto simp: word_unat_eq_iff M_def)
      moreover have "(T + n) mod M = unat (tail rb + len)" using ne False TM sumT by simp
      ultimately show ?thesis
        by simp
    qed
    show ?thesis
      using guard c m1
      by (simp add: Ring_Buffer_Write_String_def Let_def T_def [symmetric] n_def [symmetric]
          tl [symmetric])
  qed
  show ?thesis
    using res blit by blast
qed


lemma unat_of_nat_below:
  assumes "x < unat (w :: u32)"
  shows "unat (of_nat x :: u32) = x"
proof -
  have "unat w < 2 ^ 32" using unsigned_less [of w] by simp
  with assms have "x < 2 ^ 32" by linarith
  then show ?thesis by (simp add: unat_of_nat)
qed

lemma Write_String_appends:
  assumes ok: "rb_ok rb"
    and fits: "unat (lenght rb) + unat len \<le> unat (max_length rb)"
    and B: "length B = unat len"
  shows "\<exists>rb1. Ring_Buffer_Write_String rb B len = Inr (RING_BUFFER_SUCCESS, rb1) \<and>
           rb_ok rb1 \<and> stored rb1 = stored rb @ B \<and>
           head rb1 = head rb \<and> lenght rb1 = lenght rb + len \<and>
           max_length rb1 = max_length rb"
proof -
  define H T M L n where "H = unat (head rb)" and "T = unat (tail rb)"
    and "M = unat (max_length rb)" and "L = unat (lenght rb)" and "n = unat len"
  from Write_String_result [OF ok fits B]
  obtain arr' where
    res: "Ring_Buffer_Write_String rb B len
            = Inr (RING_BUFFER_SUCCESS,
                   rb\<lparr>array_addr := arr', lenght := lenght rb + len,
                      tail := of_nat ((T + n) mod M)\<rparr>)"
    and len': "length arr' = length (array_addr rb)"
    and new: "\<And>k. k < n \<Longrightarrow> arr' ! ((T + k) mod M) = B ! k"
    and old: "\<And>j. j < length (array_addr rb) \<Longrightarrow> (\<forall>k<n. j \<noteq> (T + k) mod M)
                \<Longrightarrow> arr' ! j = array_addr rb ! j"
    unfolding T_def M_def n_def by blast
  define rb1 where "rb1 = rb\<lparr>array_addr := arr', lenght := lenght rb + len,
                      tail := of_nat ((T + n) mod M)\<rparr>"
  from ok have HM: "H < M" and TM: "T < M" and Marr: "M \<le> length (array_addr rb)"
    and LM: "L \<le> M" and Teq: "T = (H + L) mod M"
    by (simp_all add: rb_ok_def H_def T_def M_def L_def word_less_nat_alt word_le_nat_alt)
  have fitsn: "L + n \<le> M" using fits by (simp add: L_def n_def M_def)
  have M32: "M < 2 ^ 32" unfolding M_def using unsigned_less [of "max_length rb"] by simp
  have sumL: "unat (lenght rb + len) = L + n"
    unfolding L_def n_def using fitsn M32
    by (subst unat_add_lem [THEN iffD1]) (simp_all add: L_def n_def)
  have Tk: "(T + k) mod M = (H + (L + k)) mod M" for k
    unfolding Teq by (simp add: mod_add_left_eq add.assoc)
  have tl1: "unat (of_nat ((T + n) mod M) :: u32) = (H + (L + n)) mod M"
  proof -
    have "(T + n) mod M < unat (max_length rb)"
      using HM by (simp add: M_def)
    then show ?thesis using Tk [of n] by (simp add: unat_of_nat_below)
  qed
  have ok1: "rb_ok rb1"
    using ok len' tl1 sumL fitsn HM
    by (simp add: rb_ok_def rb1_def word_less_nat_alt word_le_nat_alt
        H_def [symmetric] M_def [symmetric] L_def [symmetric])
  have st: "stored rb1 = stored rb @ B"
  proof (rule nth_equalityI)
    show "length (stored rb1) = length (stored rb @ B)"
      using sumL B by (simp add: stored_def rb1_def L_def n_def)
  next
    fix i
    assume "i < length (stored rb1)"
    then have i: "i < L + n"
      using sumL by (simp add: stored_def rb1_def)
    have "(H + i) mod M < M" using HM by simp
    then have pos: "(H + i) mod M < length (array_addr rb)"
      using Marr by linarith
    have lhs: "stored rb1 ! i = arr' ! ((H + i) mod M)"
      using i sumL by (simp add: stored_def rb1_def H_def M_def)
    show "stored rb1 ! i = (stored rb @ B) ! i"
    proof (cases "i < L")
      case True
      have "\<forall>k<n. (H + i) mod M \<noteq> (T + k) mod M"
      proof (intro allI impI)
        fix k assume "k < n"
        then have "i < L + k" and "L + k < i + M"
          using True fitsn by simp_all
        then show "(H + i) mod M \<noteq> (T + k) mod M"
          unfolding Tk by (rule mod_window_neq)
      qed
      then have "arr' ! ((H + i) mod M) = array_addr rb ! ((H + i) mod M)"
        using old pos by blast
      with True lhs show ?thesis
        by (simp add: nth_append stored_def H_def M_def L_def)
    next
      case False
      then have k: "i - L < n" and e: "L + (i - L) = i" using i by simp_all
      have "arr' ! ((T + (i - L)) mod M) = B ! (i - L)"
        using new k by blast
      then have "arr' ! ((H + i) mod M) = B ! (i - L)"
        unfolding Tk e .
      with False lhs show ?thesis
        by (simp add: nth_append stored_def L_def)
    qed
  qed
  show ?thesis
    using res ok1 st by (auto simp: rb1_def [symmetric]) (simp_all add: rb1_def)
qed

lemma Read_String_takes:
  assumes ok: "rb_ok rb" and n: "n \<le> lenght rb"
  shows "\<exists>rb1. Ring_Buffer_Read_String rb n
                 = Inr (RING_BUFFER_SUCCESS, take (unat n) (stored rb), rb1) \<and>
               lenght rb1 = lenght rb - n"
proof -
  define H M L N where "H = unat (head rb)"
    and "M = unat (max_length rb)" and "L = unat (lenght rb)" and "N = unat n"
  define arr where "arr = array_addr rb"
  from ok have HM: "H < M" and Marr: "M \<le> length arr" and LM: "L \<le> M"
    by (simp_all add: rb_ok_def H_def M_def L_def arr_def word_less_nat_alt word_le_nat_alt)
  from n have NL: "N \<le> L" and guard: "\<not> n > lenght rb"
    by (simp_all add: N_def L_def word_le_nat_alt word_less_nat_alt)
  have diff: "unat (max_length rb - head rb) = M - H"
    unfolding M_def H_def using HM
    by (subst unat_sub) (simp_all add: word_le_nat_alt H_def M_def)
  have tk: "take N (stored rb) = map (\<lambda>i. arr ! ((H + i) mod M)) [0..<N]"
    using NL by (simp add: stored_def take_map H_def M_def L_def arr_def min_def)
  show ?thesis
  proof (cases "N > M - H")
    case True
    then have c: "n > max_length rb - head rb"
      using diff by (simp add: word_less_nat_alt N_def)
    then have le: "max_length rb - head rb \<le> n" by simp
    have ub: "unat (n - (max_length rb - head rb)) = N - (M - H)"
      using le diff by (simp add: unat_sub N_def)
    have bnz: "n - (max_length rb - head rb) \<noteq> 0"
      using c by simp
    have m1: "memcpy_from arr H (M - H) = Inr (take (M - H) (drop H arr))"
      using HM Marr by (simp add: memcpy_from_def)
    have m2: "memcpy_from arr 0 (N - (M - H)) = Inr (take (N - (M - H)) arr)"
      using NL LM Marr by (simp add: memcpy_from_def)
    have out: "take (M - H) (drop H arr) @ take (N - (M - H)) arr = take N (stored rb)"
      unfolding tk
    proof (rule nth_equalityI)
      show "length (take (M - H) (drop H arr) @ take (N - (M - H)) arr)
              = length (map (\<lambda>i. arr ! ((H + i) mod M)) [0..<N])"
        using True HM Marr NL LM by simp
    next
      fix i
      assume "i < length (take (M - H) (drop H arr) @ take (N - (M - H)) arr)"
      then have i: "i < N" using True HM Marr NL LM by simp
      show "(take (M - H) (drop H arr) @ take (N - (M - H)) arr) ! i
              = map (\<lambda>i. arr ! ((H + i) mod M)) [0..<N] ! i"
      proof (cases "i < M - H")
        case True
        then have "(H + i) mod M = H + i" by simp
        with True i HM Marr show ?thesis
          by (simp add: nth_append)
      next
        case False
        have e: "H + i = M + (i - (M - H))" using False HM by linarith
        have lt: "i - (M - H) < M" using i NL LM by linarith
        have "(H + i) mod M = i - (M - H)"
          unfolding e using lt by simp
        with False i HM Marr NL LM show ?thesis
          by (simp add: nth_append)
      qed
    qed
    show ?thesis
      using guard c bnz diff ub m1 m2 out
      by (simp add: Ring_Buffer_Read_String_def Let_def H_def [symmetric] arr_def [symmetric]
          N_def [symmetric])
  next
    case False
    then have c: "\<not> n > max_length rb - head rb"
      using diff by (simp add: word_less_nat_alt N_def)
    have m1: "memcpy_from arr H N = Inr (take N (drop H arr))"
      using False HM Marr by (simp add: memcpy_from_def)
    have out: "take N (drop H arr) = take N (stored rb)"
      unfolding tk
    proof (rule nth_equalityI)
      show "length (take N (drop H arr)) = length (map (\<lambda>i. arr ! ((H + i) mod M)) [0..<N])"
        using False HM Marr by simp
    next
      fix i
      assume "i < length (take N (drop H arr))"
      then have i: "i < N" by simp
      then have "(H + i) mod M = H + i" using False by simp
      with i False HM Marr
      show "take N (drop H arr) ! i = map (\<lambda>i. arr ! ((H + i) mod M)) [0..<N] ! i"
        by simp
    qed
    show ?thesis
      using guard c m1 out
      by (simp add: Ring_Buffer_Read_String_def Let_def H_def [symmetric] arr_def [symmetric]
          N_def [symmetric])
  qed
qed


text \<open>
  Claim C5 as the specification states it, for every state with room for the block: the
  block read that follows the block write returns the block. The buffer is a queue; when
  it already holds a byte, the read returns that byte, not the one just written.
\<close>

theorem round_trip_on_filled_buffer_counterexample:
  "Ring_Buffer_Write_String one_of_four [9] 1
     = Inr (RING_BUFFER_SUCCESS,
            \<lparr>head = 0, tail = 2, lenght = 2, array_addr = [0x41, 9, 0, 0], max_length = 4\<rparr>) \<and>
   Ring_Buffer_Read_String
       \<lparr>head = 0, tail = 2, lenght = 2, array_addr = [0x41, 9, 0, 0], max_length = 4\<rparr> 1
     = Inr (RING_BUFFER_SUCCESS, [0x41],
            \<lparr>head = 1, tail = 2, lenght = 1, array_addr = [0x41, 9, 0, 0], max_length = 4\<rparr>)"
  by (simp add: Ring_Buffer_Write_String_def Ring_Buffer_Read_String_def one_of_four_def
      memcpy_to_def memcpy_from_def)

text \<open>
  Claim C5, amended: in every empty buffer that satisfies the invariant, wherever head and
  tail stand, a block write of \<open>len\<close> bytes that the capacity admits succeeds, and the
  block read of \<open>len\<close> bytes that follows succeeds, returns exactly the bytes written, in
  order, and leaves the buffer empty. Both calls may split at the end of the array.
\<close>

theorem block_round_trip:
  assumes "rb_ok rb" and "lenght rb = 0" and "length B = unat len" and "len \<le> max_length rb"
  shows "\<exists>rb1 rb2.
           Ring_Buffer_Write_String rb B len = Inr (RING_BUFFER_SUCCESS, rb1) \<and>
           Ring_Buffer_Read_String rb1 len = Inr (RING_BUFFER_SUCCESS, B, rb2) \<and>
           lenght rb2 = 0"
proof -
  from assms(2,4) have fits: "unat (lenght rb) + unat len \<le> unat (max_length rb)"
    by (simp add: word_le_nat_alt)
  from Write_String_appends [OF assms(1) fits assms(3)]
  obtain rb1 where w: "Ring_Buffer_Write_String rb B len = Inr (RING_BUFFER_SUCCESS, rb1)"
    and ok1: "rb_ok rb1" and st: "stored rb1 = stored rb @ B"
    and l1: "lenght rb1 = lenght rb + len"
    by blast
  from assms(2) have st1: "stored rb1 = B"
    using st by (simp add: stored_def)
  from l1 assms(2) have l1': "len \<le> lenght rb1" by simp
  from Read_String_takes [OF ok1 l1']
  obtain rb2 where r: "Ring_Buffer_Read_String rb1 len
                         = Inr (RING_BUFFER_SUCCESS, take (unat len) (stored rb1), rb2)"
    and l2: "lenght rb2 = lenght rb1 - len"
    by blast
  from r st1 assms(3)
  have "Ring_Buffer_Read_String rb1 len = Inr (RING_BUFFER_SUCCESS, B, rb2)"
    by simp
  moreover from l2 l1 assms(2) have "lenght rb2 = 0" by simp
  ultimately show ?thesis using w by blast
qed

theorem block_round_trip_witness:
  "rb_ok empty_at_three \<and> lenght empty_at_three = 0 \<and>
   length [1, 2, 3 :: u8] = unat (3 :: u32) \<and> 3 \<le> max_length empty_at_three \<and>
   Ring_Buffer_Write_String empty_at_three [1, 2, 3] 3
     = Inr (RING_BUFFER_SUCCESS,
            \<lparr>head = 3, tail = 2, lenght = 3, array_addr = [2, 3, 0, 1], max_length = 4\<rparr>) \<and>
   Ring_Buffer_Read_String
       \<lparr>head = 3, tail = 2, lenght = 3, array_addr = [2, 3, 0, 1], max_length = 4\<rparr> 3
     = Inr (RING_BUFFER_SUCCESS, [1, 2, 3],
            \<lparr>head = 2, tail = 2, lenght = 0, array_addr = [2, 3, 0, 1], max_length = 4\<rparr>)"
proof -
  have ok: "rb_ok empty_at_three"
    by (simp add: rb_ok_def empty_at_three_def)
  have e: "lenght empty_at_three = 0"
    by (simp add: empty_at_three_def)
  have b: "length [1, 2, 3 :: u8] = unat (3 :: u32)"
    by simp
  have c: "3 \<le> max_length empty_at_three"
    by (simp add: empty_at_three_def)
  have w: "Ring_Buffer_Write_String empty_at_three [1, 2, 3] 3
     = Inr (RING_BUFFER_SUCCESS,
            \<lparr>head = 3, tail = 2, lenght = 3, array_addr = [2, 3, 0, 1], max_length = 4\<rparr>)"
    by (simp add: Ring_Buffer_Write_String_def empty_at_three_def memcpy_to_def)
  show ?thesis
    using block_round_trip [OF ok e b c] ok e c w
    by (auto simp: Ring_Buffer_Read_String_def memcpy_from_def)
qed

section \<open>Keyword insertion\<close>

text \<open>
  What the little-endian body stores, for every length up to 4: the first \<open>keyword_lenght\<close>
  bytes of the four-byte big-endian encoding of the value. For length 4 that is the whole
  encoding.
\<close>

lemma upt4: "[0..<4] = [0, 1, 2, 3]" "[0..<3] = [0, 1, 2]" "[0..<2] = [0, 1]" "[0..<1] = [0]"
  by (simp_all add: upt_rec)

lemma memcpy_to_take:
  assumes "n \<le> m"
  shows "memcpy_to arr off (take m src) n = memcpy_to arr off src n"
  using assms by (simp add: memcpy_to_def min_def)

lemma memcpy_to_drop_take:
  assumes "a + b \<le> m"
  shows "memcpy_to arr off (drop a (take m src)) b = memcpy_to arr off (drop a src) b"
proof -
  have "drop a (take m src) = take (m - a) (drop a src)"
    by (simp add: drop_take)
  moreover have "b \<le> m - a" using assms by linarith
  ultimately show ?thesis
    by (simp add: memcpy_to_take)
qed

lemma Write_String_prefix:
  "Ring_Buffer_Write_String rb (take (unat len) B) len = Ring_Buffer_Write_String rb B len"
proof (cases "max_length rb - tail rb < len")
  case True
  then have le: "max_length rb - tail rb \<le> len" by simp
  have a: "unat (max_length rb - tail rb) \<le> unat len"
    using le by (simp add: word_le_nat_alt)
  have ab: "unat (max_length rb - tail rb) + unat (len - (max_length rb - tail rb)) \<le> unat len"
    using le by (simp add: unat_sub word_le_nat_alt)
  show ?thesis
    using True
    by (simp add: Ring_Buffer_Write_String_def Let_def memcpy_to_take [OF a]
        memcpy_to_drop_take [OF ab] cong: sum.case_cong)
next
  case False
  then show ?thesis
    by (simp add: Ring_Buffer_Write_String_def Let_def memcpy_to_take)
qed

lemma insert_keyword_little_endian_appends:
  assumes ok: "rb_ok rb" and l: "keyword_lenght \<le> 4"
    and fits: "unat (lenght rb) + unat keyword_lenght \<le> unat (max_length rb)"
  shows "\<exists>rb1. Ring_Buffer_Insert_Keyword LittleEndian rb keyword keyword_lenght
                 = Inr (RING_BUFFER_SUCCESS, rb1) \<and>
               rb_ok rb1 \<and>
               stored rb1 = stored rb @ take (unat keyword_lenght) (keyword_bytes keyword 4)"
proof -
  define n :: u32 where "n = ucast keyword_lenght"
  have un: "unat n = unat keyword_lenght" by (simp add: n_def unat_ucast_u8)
  from l have n4: "unat n \<le> 4" by (simp add: un word_le_nat_alt)
  have kb: "keyword_bytes keyword 4
              = [byte_of keyword 3, byte_of keyword 2, byte_of keyword 1, byte_of keyword 0]"
    by (simp add: keyword_bytes_def upt4)
  have ins: "Ring_Buffer_Insert_Keyword LittleEndian rb keyword keyword_lenght
               = Ring_Buffer_Write_String rb (take (unat n) (keyword_bytes keyword 4)) n"
    by (simp add: Ring_Buffer_Insert_Keyword_def object_bytes_def Let_def kb
        Write_String_prefix n_def)
  have len: "length (take (unat n) (keyword_bytes keyword 4)) = unat n"
    using n4 by (simp add: kb)
  from fits have fits': "unat (lenght rb) + unat n \<le> unat (max_length rb)"
    by (simp add: un)
  from Write_String_appends [OF ok fits' len] show ?thesis
    unfolding ins un by blast
qed


text \<open>
  Claim C3 (the inserted bytes are the \<open>keyword_lenght\<close> least significant bytes of the
  value, most significant first) does not hold of the code for lengths below 4. Both bodies
  fill \<open>keyword_byte\<close> with the four bytes of the value, most significant first. The
  little-endian body then writes the first \<open>keyword_lenght\<close> of them, the most significant
  ones (lemma \<open>insert_keyword_little_endian_appends\<close>): for \<open>0xABCD\<close> and length 2 it
  stores \<open>00 00\<close>, and the search for \<open>0xABCD\<close> of length 2, which expects \<open>AB CD\<close>, finds
  nothing. The big-endian body starts at offset
  \<open>keyword_lenght - 1\<close>: it stores \<open>00 AB\<close>, and for length 4 it reads past the array.
\<close>

theorem insert_keyword_takes_high_bytes:
  "Ring_Buffer_Insert_Keyword LittleEndian (snd (Ring_Buffer_Init [0xFF, 0xFF, 0xFF, 0xFF] 4))
       0xABCD 2
     = Inr (RING_BUFFER_SUCCESS, two_zero) \<and>
   Ring_Buffer_Find_Keyword two_zero 0xABCD 2 = Some (Inr (ucast RING_BUFFER_ERROR, two_zero)) \<and>
   Ring_Buffer_Insert_Keyword BigEndian (snd (Ring_Buffer_Init [0xFF, 0xFF, 0xFF, 0xFF] 4))
       0xABCD 2
     = Inr (RING_BUFFER_SUCCESS, two_zero\<lparr>array_addr := [0, 0xAB, 0xFF, 0xFF]\<rparr>) \<and>
   Ring_Buffer_Insert_Keyword BigEndian (snd (Ring_Buffer_Init [0xFF, 0xFF, 0xFF, 0xFF] 4))
       0xCCFB22AA 4
     = Inl OutOfBounds"
proof -
  have "Ring_Buffer_Find_Keyword two_zero 0xABCD 2 = Some (Inr (0, two_zero))"
    by code_simp
  then show ?thesis
    by (simp add: Ring_Buffer_Insert_Keyword_def Ring_Buffer_Write_String_def
        Ring_Buffer_Init_def two_zero_def memcpy_to_def object_bytes_def byte_of_def
        RING_BUFFER_ERROR_def)
qed

section \<open>The search\<close>

subsection \<open>Bytes and words\<close>

lemma bit_below_bound:
  fixes k :: u32
  assumes "unat k < 2 ^ m" and "bit k i"
  shows "i < m"
proof -
  from assms(1) have "int (unat k) < int (2 ^ m)"
    by (simp only: of_nat_less_iff)
  then have "uint k < 2 ^ m"
    by (simp only: uint_nat of_nat_power of_nat_numeral)
  then have "k AND mask m = k"
    by (simp only: mask_eq_iff)
  with assms(2) have "bit (k AND mask m) i"
    by (simp only:)
  then show ?thesis
    by (simp only: bit_and_iff bit_mask_iff)
qed

lemma be_word_keyword_bytes:
  assumes l: "1 \<le> l" "l \<le> 4" and k: "unat k < 2 ^ (8 * l)"
  shows "be_word (keyword_bytes k l) = k"
proof -
  have hi: "i < 8 * l" if "bit k i" for i
    using k that by (rule bit_below_bound)
  from l consider "l = 1" | "l = 2" | "l = 3" | "l = 4"
    by linarith
  then show ?thesis
  proof cases
    case 1
    have "(ucast (ucast k :: u8) :: u32) = k"
    proof (rule bit_word_eqI)
      fix n assume "n < LENGTH(32)"
      show "bit (ucast (ucast k :: u8) :: u32) n = bit k n"
        using hi [of n] 1 by (auto simp add: bit_simps)
    qed
    with 1 show ?thesis
      by (simp add: keyword_bytes_def byte_of_def upt4)
  next
    case 2
    have "(push_bit 8 (ucast (ucast (drop_bit 8 k) :: u8)) OR ucast (ucast k :: u8) :: u32) = k"
    proof (rule bit_word_eqI)
      fix n assume "n < LENGTH(32)"
      show "bit (push_bit 8 (ucast (ucast (drop_bit 8 k) :: u8)) OR ucast (ucast k :: u8) :: u32) n
              = bit k n"
        using hi [of n] 2 by (cases "n < 8") (auto simp add: bit_simps)
    qed
    with 2 show ?thesis
      by (simp add: keyword_bytes_def byte_of_def upt4)
  next
    case 3
    have "(push_bit 16 (ucast (ucast (drop_bit 16 k) :: u8))
            OR (push_bit 8 (ucast (ucast (drop_bit 8 k) :: u8)) OR ucast (ucast k :: u8)) :: u32) = k"
    proof (rule bit_word_eqI)
      fix n assume "n < LENGTH(32)"
      show "bit (push_bit 16 (ucast (ucast (drop_bit 16 k) :: u8))
            OR (push_bit 8 (ucast (ucast (drop_bit 8 k) :: u8)) OR ucast (ucast k :: u8)) :: u32) n
              = bit k n"
        using hi [of n] 3 by (cases "n < 8"; cases "n < 16") (auto simp add: bit_simps)
    qed
    with 3 show ?thesis
      by (simp add: keyword_bytes_def byte_of_def upt4)
  next
    case 4
    have "(push_bit 24 (ucast (ucast (drop_bit 24 k) :: u8))
            OR (push_bit 16 (ucast (ucast (drop_bit 16 k) :: u8))
            OR (push_bit 8 (ucast (ucast (drop_bit 8 k) :: u8)) OR ucast (ucast k :: u8))) :: u32) = k"
    proof (rule bit_word_eqI)
      fix n assume n: "n < LENGTH(32)"
      show "bit (push_bit 24 (ucast (ucast (drop_bit 24 k) :: u8))
            OR (push_bit 16 (ucast (ucast (drop_bit 16 k) :: u8))
            OR (push_bit 8 (ucast (ucast (drop_bit 8 k) :: u8)) OR ucast (ucast k :: u8))) :: u32) n
              = bit k n"
        using n by (cases "n < 8"; cases "n < 16"; cases "n < 24") (auto simp add: bit_simps)
    qed
    with 4 show ?thesis
      by (simp add: keyword_bytes_def byte_of_def upt4)
  qed
qed

lemma keyword_bytes_be_word:
  assumes "length bs \<le> 4"
  shows "keyword_bytes (be_word bs) (length bs) = bs"
proof -
  consider "bs = []" | a where "bs = [a]" | a b where "bs = [a, b]"
    | a b c where "bs = [a, b, c]" | a b c d where "bs = [a, b, c, d]"
    using assms
    by (cases bs; cases "tl bs"; cases "tl (tl bs)"; cases "tl (tl (tl bs))";
        cases "tl (tl (tl (tl bs)))") auto
  then show ?thesis
  proof cases
    case 1
    then show ?thesis by (simp add: keyword_bytes_def)
  next
    case 2
    then show ?thesis
      by (simp add: keyword_bytes_def byte_of_def upt4) (rule bit_word_eqI; simp add: bit_simps)
  next
    case 3
    then show ?thesis
      apply (simp add: keyword_bytes_def byte_of_def upt4)
      apply (intro conjI; rule bit_word_eqI; auto simp add: bit_simps dest: bit_imp_le_length)
      done
  next
    case 4
    then show ?thesis
      apply (simp add: keyword_bytes_def byte_of_def upt4)
      apply (intro conjI; rule bit_word_eqI; auto simp add: bit_simps dest: bit_imp_le_length)
      done
  next
    case 5
    then show ?thesis
      apply (simp add: keyword_bytes_def byte_of_def upt4)
      apply (intro conjI; rule bit_word_eqI; auto simp add: bit_simps dest: bit_imp_le_length)
      done
  qed
qed


subsection \<open>The two loops\<close>

lemma next_slot:
  fixes fh mx :: u32
  assumes "fh < mx"
  shows "unat (if fh + 1 > mx - 1 then 0 else fh + 1) = (unat fh + 1) mod unat mx"
    and "(if fh + 1 > mx - 1 then 0 else fh + 1) < mx"
proof -
  from assms have lt: "unat fh < unat mx" by (simp add: word_less_nat_alt)
  have mx32: "unat mx < 2 ^ 32" using unsigned_less [of mx] by simp
  have s: "unat (fh + 1) = unat fh + 1"
    using lt mx32 by (subst unat_add_lem [THEN iffD1]) simp_all
  have "1 \<le> mx" using lt by (simp add: word_le_nat_alt)
  then have d: "unat (mx - 1) = unat mx - 1"
    by (simp add: unat_sub)
  show "unat (if fh + 1 > mx - 1 then 0 else fh + 1) = (unat fh + 1) mod unat mx"
  proof (cases "unat fh + 1 = unat mx")
    case True
    then show ?thesis using s d by (simp add: word_less_nat_alt)
  next
    case False
    with lt have "unat fh + 1 < unat mx" by linarith
    then show ?thesis using s d by (simp add: word_less_nat_alt)
  qed
  show "(if fh + 1 > mx - 1 then 0 else fh + 1) < mx"
  proof (cases "unat fh + 1 = unat mx")
    case True
    then show ?thesis using s d lt by (simp add: word_less_nat_alt)
  next
    case False
    with lt have "unat fh + 1 < unat mx" by linarith
    then show ?thesis using s d by (simp add: word_less_nat_alt)
  qed
qed

lemma Get_Word_loop_value:
  fixes rl i fh :: u32
  assumes arr: "unat (max_length rb) \<le> length (array_addr rb)"
    and fh: "fh < max_length rb"
    and rl: "unat rl \<le> 4" and i1: "1 \<le> unat i" and ic: "unat i + c = unat rl + 1"
  shows "Get_Word_loop rb rl i fh acc
           = Inr (acc OR be_word (map (\<lambda>j. array_addr rb ! ((unat fh + j) mod unat (max_length rb)))
                                     [0..<c]), rb)"
  using fh i1 ic
proof (induction c arbitrary: i fh acc)
  case 0
  then have "\<not> i \<le> rl" by (simp add: word_le_nat_alt)
  then show ?case
    by (subst Get_Word_loop.simps) simp
next
  case (Suc c)
  define M where "M = unat (max_length rb)"
  from Suc.prems have le: "i \<le> rl" and ui: "unat i \<le> 4"
    using rl by (simp_all add: word_le_nat_alt)
  have inb: "unat fh < length (array_addr rb)"
    using Suc.prems(1) arr by (simp add: word_less_nat_alt)
  have dc: "unat (rl - i) = c"
    using le Suc.prems by (simp add: unat_sub)
  have c3: "c \<le> 3" using Suc.prems rl by linarith
  have sh: "unat (8 * (rl - i)) = 8 * c"
    using dc c3 by (subst unat_mult_lem [THEN iffD1]) simp_all
  have shlt: "8 * (rl - i) < 32"
    using sh c3 by (simp add: word_less_nat_alt)
  have si: "unat (i + 1) = unat i + 1"
    using ui by (subst unat_add_lem [THEN iffD1]) simp_all
  note nx = next_slot [OF Suc.prems(1)]
  have step: "Get_Word_loop rb rl i fh acc
     = Get_Word_loop rb rl (i + 1) (if fh + 1 > max_length rb - 1 then 0 else fh + 1)
         (acc OR push_bit (8 * c) (ucast (array_addr rb ! unat fh)))"
    using le inb shlt sh by (subst Get_Word_loop.simps) (simp add: Let_def)
  have IH: "Get_Word_loop rb rl (i + 1) (if fh + 1 > max_length rb - 1 then 0 else fh + 1)
         (acc OR push_bit (8 * c) (ucast (array_addr rb ! unat fh)))
     = Inr ((acc OR push_bit (8 * c) (ucast (array_addr rb ! unat fh)))
              OR be_word (map (\<lambda>j. array_addr rb ! (((unat fh + 1) mod M + j) mod M)) [0..<c]), rb)"
    using Suc.IH [OF nx(2), of "i + 1"] si Suc.prems nx(1) by (simp add: M_def)
  have pm: "unat fh mod M = unat fh"
    using Suc.prems(1) by (simp add: M_def word_less_nat_alt)
  have "map (\<lambda>j. array_addr rb ! ((unat fh + j) mod M)) [0..<Suc c]
          = array_addr rb ! unat fh
            # map (\<lambda>j. array_addr rb ! (((unat fh + 1) mod M + j) mod M)) [0..<c]"
    by (simp only: map_upt_Suc) (simp add: pm mod_add_left_eq)
  then show ?case
    unfolding step IH by (simp add: M_def [symmetric] or.assoc)
qed

lemma Find_Keyword_test_value:
  assumes arr: "unat (max_length rb) \<le> length (array_addr rb)"
    and fh: "fh < max_length rb"
    and l: "1 \<le> unat l" "unat l \<le> 4"
  shows "Find_Keyword_test rb k l t fh
           = Inr (array_addr rb ! unat fh = t \<and>
                  be_word (map (\<lambda>j. array_addr rb ! ((unat fh + j) mod unat (max_length rb)))
                              [0..<unat l]) = k, rb)"
proof -
  have inb: "unat fh < length (array_addr rb)"
    using fh arr by (simp add: word_less_nat_alt)
  have ul: "unat (ucast l :: u32) = unat l" by (rule unat_ucast_u8)
  have "Ring_Buffer_Get_Word rb fh (ucast l)
          = Inr (be_word (map (\<lambda>j. array_addr rb ! ((unat fh + j) mod unat (max_length rb)))
                              [0..<unat l]), rb)"
    unfolding Ring_Buffer_Get_Word_def
    using Get_Word_loop_value [OF arr fh, of "ucast l" 1 "unat l" 0] l ul by simp
  then show ?thesis
    using inb by (simp add: Find_Keyword_test_def)
qed


lemma Find_Keyword_loop_finds:
  assumes fh: "fh < max_length rb"
    and miss: "\<forall>i<j. Find_Keyword_test rb k l t
                  (of_nat ((unat fh + i) mod unat (max_length rb))) = Inr (False, rb)"
    and hit: "Find_Keyword_test rb k l t
                  (of_nat ((unat fh + j) mod unat (max_length rb))) = Inr (True, rb)"
    and bound: "unat d + j \<le> unat m"
  shows "Find_Keyword_loop rb k l m t d fh = Some (Inr (Matched (d + of_nat j), rb))"
  using fh miss hit bound
proof (induction j arbitrary: d fh)
  case 0
  from "0.prems"(1) have "unat fh mod unat (max_length rb) = unat fh"
    by (simp add: word_less_nat_alt)
  with "0.prems"(3) have "Find_Keyword_test rb k l t fh = Inr (True, rb)"
    by simp
  moreover from "0.prems"(4) have "d \<le> m" by (simp add: word_le_nat_alt)
  ultimately show ?case
    by (subst Find_Keyword_loop.simps) simp
next
  case (Suc j)
  define M where "M = unat (max_length rb)"
  define nxt where "nxt = (if fh + 1 > max_length rb - 1 then 0 else fh + 1)"
  note nx = next_slot [OF Suc.prems(1), folded nxt_def]
  from Suc.prems(1) have "unat fh mod M = unat fh"
    by (simp add: word_less_nat_alt M_def)
  with Suc.prems(2) have t0: "Find_Keyword_test rb k l t fh = Inr (False, rb)"
    by (auto simp: M_def dest: spec [of _ 0])
  from Suc.prems(4) have dm: "d \<le> m" by (simp add: word_le_nat_alt)
  have m32: "unat m < 2 ^ 32" using unsigned_less [of m] by simp
  have sd: "unat (d + 1) = unat d + 1"
    using Suc.prems(4) m32 by (subst unat_add_lem [THEN iffD1]) simp_all
  have step: "Find_Keyword_loop rb k l m t d fh = Find_Keyword_loop rb k l m t (d + 1) nxt"
    using t0 dm by (subst Find_Keyword_loop.simps) (simp add: nxt_def)
  have pos: "(unat nxt + i) mod unat (max_length rb) = (unat fh + Suc i) mod unat (max_length rb)"
    for i
    unfolding nx(1) by (simp add: mod_add_left_eq)
  have miss': "\<forall>i<j. Find_Keyword_test rb k l t
                  (of_nat ((unat nxt + i) mod unat (max_length rb))) = Inr (False, rb)"
    using Suc.prems(2) by (auto simp: pos)
  have hit': "Find_Keyword_test rb k l t
                  (of_nat ((unat nxt + j) mod unat (max_length rb))) = Inr (True, rb)"
    using Suc.prems(3) by (simp add: pos)
  have "Find_Keyword_loop rb k l m t (d + 1) nxt = Some (Inr (Matched (d + 1 + of_nat j), rb))"
    using Suc.IH [OF nx(2), of "d + 1"] miss' hit' sd Suc.prems(4) by simp
  then show ?case
    unfolding step by (simp add: add.assoc)
qed

lemma Find_Keyword_loop_match:
  assumes "Find_Keyword_loop rb k l m t d fh = Some y"
  shows "fh < max_length rb \<longrightarrow>
         (\<forall>r rb1. y = Inr (Matched r, rb1) \<longrightarrow>
            (\<exists>j. r = d + of_nat j \<and>
                 Find_Keyword_test rb k l t (of_nat ((unat fh + j) mod unat (max_length rb)))
                   = Inr (True, rb) \<and>
                 (\<forall>i<j. Find_Keyword_test rb k l t
                           (of_nat ((unat fh + i) mod unat (max_length rb))) = Inr (False, rb))))"
  using assms
proof (induct rule: Find_Keyword_loop.raw_induct [rotated 1, consumes 1, case_names body])
  case (body loop rb k l m t d fh y)
  define M where "M = unat (max_length rb)"
  show ?case
  proof (intro impI allI)
    fix r rb1
    assume fh: "fh < max_length rb" and y: "y = Inr (Matched r, rb1)"
    define nxt where "nxt = (if fh + 1 > max_length rb - 1 then 0 else fh + 1)"
    note nx = next_slot [OF fh, folded nxt_def]
    have self: "of_nat ((unat fh + 0) mod M) = fh"
      using fh by (simp add: word_less_nat_alt M_def)
    have dm: "d \<le> m"
      using body(2) y by (auto split: if_splits)
    show "\<exists>j. r = d + of_nat j \<and>
               Find_Keyword_test rb k l t (of_nat ((unat fh + j) mod unat (max_length rb)))
                 = Inr (True, rb) \<and>
               (\<forall>i<j. Find_Keyword_test rb k l t
                         (of_nat ((unat fh + i) mod unat (max_length rb))) = Inr (False, rb))"
    proof (cases "Find_Keyword_test rb k l t fh")
      case (Inl f)
      with dm body(2) y show ?thesis by simp
    next
      case (Inr p)
      obtain h rb0 where p: "p = (h, rb0)" by (cases p)
      with Inr have rb0: "rb0 = rb" by (auto dest: Find_Keyword_test_frame)
      show ?thesis
      proof (cases h)
        case True
        with dm Inr p rb0 body(2) y have "r = d" by simp
        moreover have "Find_Keyword_test rb k l t (of_nat ((unat fh + 0) mod M)) = Inr (True, rb)"
          unfolding self using Inr p rb0 True by simp
        ultimately show ?thesis
          unfolding M_def by (intro exI [of _ 0]) simp
      next
        case False
        with dm Inr p rb0 body(2)
        have call: "loop rb k l m t (d + 1) nxt = Some y"
          by (simp add: nxt_def)
        from body(1) [OF call] nx(2) y
        obtain j where r: "r = d + 1 + of_nat j"
          and hit: "Find_Keyword_test rb k l t (of_nat ((unat nxt + j) mod M)) = Inr (True, rb)"
          and miss: "\<forall>i<j. Find_Keyword_test rb k l t (of_nat ((unat nxt + i) mod M))
                               = Inr (False, rb)"
          unfolding M_def by blast
        have pos: "(unat nxt + i) mod M = (unat fh + Suc i) mod M" for i
          unfolding M_def nx(1) by (simp add: mod_add_left_eq)
        have t0: "Find_Keyword_test rb k l t (of_nat ((unat fh + 0) mod M)) = Inr (False, rb)"
          unfolding self using Inr p rb0 False by simp
        have "\<forall>i<Suc j. Find_Keyword_test rb k l t (of_nat ((unat fh + i) mod M))
                               = Inr (False, rb)"
        proof (intro allI impI)
          fix i assume "i < Suc j"
          show "Find_Keyword_test rb k l t (of_nat ((unat fh + i) mod M)) = Inr (False, rb)"
          proof (cases i)
            case 0
            with t0 show ?thesis by simp
          next
            case (Suc i')
            with \<open>i < Suc j\<close> have "i' < j" by simp
            with miss show ?thesis unfolding Suc pos [symmetric] by blast
          qed
        qed
        moreover have "Find_Keyword_test rb k l t (of_nat ((unat fh + Suc j) mod M))
                         = Inr (True, rb)"
          using hit unfolding pos .
        moreover have "r = d + of_nat (Suc j)"
          using r by (simp add: add.assoc)
        ultimately show ?thesis
          unfolding M_def by blast
      qed
    qed
  qed
qed



lemma exit_in_three_of_four:
  "Ring_Buffer_Find_Keyword_exit three_of_four 0xABCD 2 = Some (Inr (Matched 2, three_of_four))"
  by code_simp

text \<open>
  Claim C10: when \<open>Ring_Buffer_Find_Keyword\<close> leaves through the \<open>return\<close> in its loop, the
  distance it returns is at least 1, and so differs from \<open>RING_BUFFER_ERROR\<close>, the value 0
  of the other \<open>return\<close>. The counter \<open>distance\<close> can wrap around to 0 when the bound of the
  loop is \<open>0xFFFFFFFF\<close>, but with \<open>head\<close> inside the capacity every slot has been tested
  before that happens.
\<close>

theorem found_distance_is_positive:
  assumes hd: "head rb < max_length rb"
    and ex: "Ring_Buffer_Find_Keyword_exit rb keyword keyword_lenght
               = Some (Inr (Matched distance, rb1))"
  shows "1 \<le> distance \<and> distance \<noteq> ucast RING_BUFFER_ERROR \<and>
         Ring_Buffer_Find_Keyword rb keyword keyword_lenght = Some (Inr (distance, rb1))"
proof -
  define M where "M = unat (max_length rb)"
  define H where "H = unat (head rb)"
  define t :: u8 where "t = ucast (drop_bit ((unat keyword_lenght - 1) * 8) keyword)"
  define m where "m = lenght rb - ucast keyword_lenght + 1"
  from hd have HM: "H < M" by (simp add: H_def M_def word_less_nat_alt)
  have M32: "M < 2 ^ 32" unfolding M_def using unsigned_less [of "max_length rb"] by simp
  from ex have loop: "Find_Keyword_loop rb keyword keyword_lenght m t 1 (head rb)
                        = Some (Inr (Matched distance, rb1))"
    by (simp add: Ring_Buffer_Find_Keyword_exit_def Let_def t_def m_def split: if_splits)
  from Find_Keyword_loop_match [OF loop] hd
  obtain j where d: "distance = 1 + of_nat j"
    and hit: "Find_Keyword_test rb keyword keyword_lenght t (of_nat ((H + j) mod M))
                = Inr (True, rb)"
    and miss: "\<forall>i<j. Find_Keyword_test rb keyword keyword_lenght t (of_nat ((H + i) mod M))
                = Inr (False, rb)"
    unfolding H_def M_def by blast
  have jM: "j < M"
  proof (rule ccontr)
    assume "\<not> j < M"
    then have "j - M < j" and e: "H + j = H + (j - M) + M"
      using HM by simp_all
    have "(H + j) mod M = (H + (j - M)) mod M"
      unfolding e by simp
    with hit miss \<open>j - M < j\<close> show False
      by auto
  qed
  have "unat (1 + of_nat j :: u32) = 1 + j"
  proof -
    have "unat (of_nat j :: u32) = j"
      using jM M32 by (simp add: unat_of_nat)
    moreover have "1 + j < 2 ^ 32" using jM M32 by simp
    ultimately show ?thesis
      by (subst unat_add_lem [THEN iffD1]) simp_all
  qed
  then have "1 \<le> unat distance" using d by simp
  then have one: "1 \<le> distance" by (simp add: word_le_nat_alt)
  then have nz: "distance \<noteq> ucast RING_BUFFER_ERROR"
    by (auto simp: RING_BUFFER_ERROR_def)
  from ex have "Ring_Buffer_Find_Keyword rb keyword keyword_lenght = Some (Inr (distance, rb1))"
    by (simp add: Ring_Buffer_Find_Keyword_def)
  with one nz show ?thesis by simp
qed


theorem found_distance_is_positive_witness:
  "head three_of_four < max_length three_of_four \<and>
   Ring_Buffer_Find_Keyword_exit three_of_four 0xABCD 2 = Some (Inr (Matched 2, three_of_four)) \<and>
   (1 :: u32) \<le> 2 \<and> (2 :: u32) \<noteq> ucast RING_BUFFER_ERROR \<and>
   Ring_Buffer_Find_Keyword three_of_four 0xABCD 2 = Some (Inr (2, three_of_four))"
proof -
  have h: "head three_of_four < max_length three_of_four"
    by (simp add: three_of_four_def)
  show ?thesis
    using found_distance_is_positive [OF h exit_in_three_of_four] h exit_in_three_of_four
    by simp
qed

subsection \<open>The distance of the first occurrence\<close>

lemma stored_window:
  assumes ok: "rb_ok rb" and i: "i + n \<le> unat (lenght rb)"
  shows "map (\<lambda>q. array_addr rb ! (((unat (head rb) + i) mod unat (max_length rb) + q)
                                      mod unat (max_length rb))) [0..<n]
           = take n (drop i (stored rb))"
proof (rule nth_equalityI)
  show "length (map (\<lambda>q. array_addr rb ! (((unat (head rb) + i) mod unat (max_length rb) + q)
                                      mod unat (max_length rb))) [0..<n])
          = length (take n (drop i (stored rb)))"
    using i by (simp add: stored_def)
next
  fix q
  assume "q < length (map (\<lambda>q. array_addr rb ! (((unat (head rb) + i) mod unat (max_length rb) + q)
                                      mod unat (max_length rb))) [0..<n])"
  then have q: "q < n" by simp
  then have "i + q < unat (lenght rb)" using i by linarith
  then have "take n (drop i (stored rb)) ! q
               = array_addr rb ! ((unat (head rb) + (i + q)) mod unat (max_length rb))"
    using q i by (simp add: stored_def)
  then show "map (\<lambda>q. array_addr rb ! (((unat (head rb) + i) mod unat (max_length rb) + q)
                                      mod unat (max_length rb))) [0..<n] ! q
               = take n (drop i (stored rb)) ! q"
    using q by (simp add: mod_add_left_eq add.assoc)
qed

text \<open>
  Claim C2 as the specification states it: the distance returned is the number of stored
  bytes before the keyword plus the length of the keyword, 17 in the scenario. The counter
  \<open>distance\<close> starts at 1 and is returned at the slot where the keyword begins: the code
  returns 14, and the test reads \<open>distance - 1 = 13\<close> bytes as the payload.
\<close>

theorem find_keyword_scenario_counterexample:
  "Ring_Buffer_Write_String (snd (Ring_Buffer_Init (replicate 256 0) 256)) first_paragraph 13
     = Inr (RING_BUFFER_SUCCESS, scenario_13) \<and>
   Ring_Buffer_Insert_Keyword LittleEndian scenario_13 0xCCFB22AA 4
     = Inr (RING_BUFFER_SUCCESS, scenario_17) \<and>
   Ring_Buffer_Find_Keyword scenario_17 0xCCFB22AA 4 = Some (Inr (14, scenario_17))"
  by code_simp

text \<open>
  The keyword has to fit in its length: the word rebuilt from the buffer is compared with
  all 32 bits of the keyword, so a keyword with bits above its two bytes is not found even
  though the encoding of its two low bytes is stored.
\<close>

lemma find_keyword_compares_all_bits:
  "keyword_bytes 0x1ABCD 2 = [0xAB, 0xCD] \<and>
   stored three_of_four = [0x41, 0xAB, 0xCD] \<and>
   Ring_Buffer_Find_Keyword three_of_four 0x1ABCD 2
     = Some (Inr (ucast RING_BUFFER_ERROR, three_of_four))"
proof -
  have "Ring_Buffer_Find_Keyword three_of_four 0x1ABCD 2 = Some (Inr (0, three_of_four))"
    by code_simp
  then show ?thesis
    by (simp add: keyword_bytes_def byte_of_def stored_def three_of_four_def upt_rec
        RING_BUFFER_ERROR_def)
qed

text \<open>
  Claim C2, amended: in every state that satisfies the invariant, for a keyword length
  from 1 to 4 and a keyword that fits in that many bytes, if the stored bytes are \<open>pre\<close>,
  then the big-endian encoding of the keyword, then \<open>post\<close>, and the encoding occurs at no
  earlier offset (as when it occurs exactly once), the search returns the number of bytes
  before the keyword plus 1: the 1-based position, from head, of the first byte of the
  keyword. The buffer is unchanged.
\<close>

theorem find_keyword_distance:
  assumes ok: "rb_ok rb"
    and l: "1 \<le> keyword_lenght" "keyword_lenght \<le> 4"
    and k: "unat keyword < 2 ^ (8 * unat keyword_lenght)"
    and dec: "stored rb = pre @ keyword_bytes keyword (unat keyword_lenght) @ post"
    and first: "\<forall>i<length pre. take (unat keyword_lenght) (drop i (stored rb))
                  \<noteq> keyword_bytes keyword (unat keyword_lenght)"
  shows "Ring_Buffer_Find_Keyword rb keyword keyword_lenght
           = Some (Inr (of_nat (length pre) + 1, rb))"
proof -
  define n Lk L H M where "n = length pre" and "Lk = unat keyword_lenght"
    and "L = unat (lenght rb)" and "H = unat (head rb)" and "M = unat (max_length rb)"
  define kb where "kb = keyword_bytes keyword Lk"
  define t :: u8 where "t = ucast (drop_bit ((unat keyword_lenght - 1) * 8) keyword)"
  define m where "m = lenght rb - ucast keyword_lenght + 1"
  define slot :: "nat \<Rightarrow> u32" where "slot i = of_nat ((H + i) mod M)" for i
  from l have Lk: "1 \<le> Lk" "Lk \<le> 4"
    by (simp_all add: Lk_def word_le_nat_alt)
  have kbl: "length kb = Lk" by (simp add: kb_def keyword_bytes_def)
  from ok have hd: "head rb < max_length rb" and arr: "M \<le> length (array_addr rb)"
    and HM: "H < M" and LM: "L \<le> M"
    by (simp_all add: rb_ok_def M_def H_def L_def word_less_nat_alt word_le_nat_alt)
  have M32: "M < 2 ^ 32" unfolding M_def using unsigned_less [of "max_length rb"] by simp
  have Lst: "length (stored rb) = L" by (simp add: stored_def L_def)
  with dec have Ldec: "L = n + Lk + length post"
    by (simp add: n_def kbl kb_def [symmetric] Lk_def [symmetric])
  \<comment> \<open>the slots the loop visits\<close>
  have slot_lt: "slot i < max_length rb" for i
  proof -
    have "(H + i) mod M < M" using HM by simp
    then show ?thesis
      using M32 by (simp add: slot_def word_less_nat_alt unat_of_nat M_def)
  qed
  have slot_unat: "unat (slot i) = (H + i) mod M" for i
  proof -
    have "(H + i) mod M < M" using HM by simp
    then show ?thesis using M32 by (simp add: slot_def unat_of_nat)
  qed
  have window: "map (\<lambda>q. array_addr rb ! ((unat (slot i) + q) mod M)) [0..<Lk]
                  = take Lk (drop i (stored rb))" if "i \<le> n" for i
    unfolding slot_unat H_def M_def
    by (rule stored_window [OF ok]) (use that Ldec in \<open>simp add: L_def [symmetric]\<close>)
  have test: "Find_Keyword_test rb keyword keyword_lenght t (slot i)
                = Inr (array_addr rb ! unat (slot i) = t \<and>
                       be_word (take Lk (drop i (stored rb))) = keyword, rb)" if "i \<le> n" for i
    using Find_Keyword_test_value [OF _ slot_lt, of keyword_lenght keyword t i] arr Lk
      window [OF that]
    by (simp add: M_def Lk_def)
  \<comment> \<open>the keyword stands at offset \<open>n\<close>\<close>
  have at_n: "take Lk (drop n (stored rb)) = kb"
    unfolding dec by (simp add: n_def kbl kb_def [symmetric] Lk_def [symmetric])
  have val: "be_word kb = keyword"
    unfolding kb_def using Lk k by (intro be_word_keyword_bytes) (simp_all add: Lk_def)
  have first_byte: "array_addr rb ! unat (slot n) = t"
  proof -
    have "take Lk (drop n (stored rb)) ! 0
            = map (\<lambda>q. array_addr rb ! ((unat (slot n) + q) mod M)) [0..<Lk] ! 0"
      using window [of n] by simp
    then have "take Lk (drop n (stored rb)) ! 0 = array_addr rb ! ((unat (slot n) + 0) mod M)"
      using Lk by simp
    moreover have "kb ! 0 = t"
      using Lk by (simp add: kb_def keyword_bytes_def byte_of_def t_def Lk_def mult.commute)
    moreover have "unat (slot n) mod M = unat (slot n)"
      using slot_unat [of n] HM by simp
    ultimately show ?thesis using at_n by simp
  qed
  have hit: "Find_Keyword_test rb keyword keyword_lenght t (slot n) = Inr (True, rb)"
    using test [of n] at_n val first_byte by simp
  have miss: "\<forall>i<n. Find_Keyword_test rb keyword keyword_lenght t (slot i) = Inr (False, rb)"
  proof (intro allI impI)
    fix i assume i: "i < n"
    define w where "w = take Lk (drop i (stored rb))"
    have wl: "length w = Lk" using i Ldec Lst by (simp add: w_def)
    from first i have ne: "w \<noteq> kb"
      by (simp add: w_def kb_def n_def Lk_def)
    have "be_word w \<noteq> keyword"
    proof
      assume "be_word w = keyword"
      moreover have "keyword_bytes (be_word w) (length w) = w"
        using wl Lk by (intro keyword_bytes_be_word) simp
      ultimately show False using ne wl by (simp add: kb_def)
    qed
    then show "Find_Keyword_test rb keyword keyword_lenght t (slot i) = Inr (False, rb)"
      using test [of i] i by (simp add: w_def)
  qed
  \<comment> \<open>the bound of the loop\<close>
  have ul: "unat (ucast keyword_lenght :: u32) = Lk"
    by (simp add: unat_ucast_u8 Lk_def)
  have "ucast keyword_lenght \<le> lenght rb"
    using ul Ldec by (simp add: word_le_nat_alt L_def [symmetric])
  then have "unat (lenght rb - ucast keyword_lenght) = L - Lk"
    using ul by (simp add: unat_sub L_def)
  moreover have "L - Lk + 1 < 2 ^ 32" using LM M32 Lk by simp
  ultimately have um: "unat m = L - Lk + 1"
    unfolding m_def by (subst unat_add_lem [THEN iffD1]) simp_all
  have bound: "unat (1 :: u32) + n \<le> unat m"
    using um Ldec by simp
  have "Find_Keyword_loop rb keyword keyword_lenght m t 1 (head rb)
          = Some (Inr (Matched (1 + of_nat n), rb))"
    using Find_Keyword_loop_finds [OF hd _ _ bound, of keyword keyword_lenght t] miss hit
    by (simp add: slot_def H_def M_def)
  moreover from l have "keyword_lenght \<noteq> 0" and "\<not> keyword_lenght > 4"
    by auto
  ultimately show ?thesis
    by (simp add: Ring_Buffer_Find_Keyword_def Ring_Buffer_Find_Keyword_exit_def Let_def
        t_def m_def n_def add.commute)
qed


theorem find_keyword_distance_witness:
  "rb_ok wrapped_keyword \<and>
   stored wrapped_keyword = [0x41] @ keyword_bytes 0xABCD (unat (2 :: u8)) @ [] \<and>
   Ring_Buffer_Find_Keyword wrapped_keyword 0xABCD 2 = Some (Inr (2, wrapped_keyword))"
proof -
  have ok: "rb_ok wrapped_keyword"
    by (simp add: rb_ok_def wrapped_keyword_def)
  have l: "(1 :: u8) \<le> 2" "(2 :: u8) \<le> 4"
    by simp_all
  have k: "unat (0xABCD :: u32) < 2 ^ (8 * unat (2 :: u8))"
    by simp
  have st: "stored wrapped_keyword = [0x41, 0xAB, 0xCD]"
    by (simp add: stored_def wrapped_keyword_def upt_rec)
  have kb: "keyword_bytes 0xABCD 2 = [0xAB, 0xCD]"
    by (simp add: keyword_bytes_def byte_of_def upt_rec)
  have dec: "stored wrapped_keyword = [0x41] @ keyword_bytes 0xABCD (unat (2 :: u8)) @ []"
    by (simp add: st kb)
  have first: "\<forall>i<length [0x41 :: u8]. take (unat (2 :: u8)) (drop i (stored wrapped_keyword))
                  \<noteq> keyword_bytes 0xABCD (unat (2 :: u8))"
    by (simp add: st kb)
  show ?thesis
    using find_keyword_distance [OF ok l k dec first] ok dec
    by simp
qed


section \<open>Searching a buffer shorter than the keyword\<close>

lemma Find_Keyword_loop_unbounded:
  assumes "Find_Keyword_loop rb k l m t d fh = Some y"
  shows "m = - 1 \<longrightarrow> (\<forall>rb1. y \<noteq> Inr (Exhausted, rb1))"
  using assms
proof (induct rule: Find_Keyword_loop.raw_induct [rotated 1, consumes 1, case_names body])
  case (body loop rb k l m t d fh y)
  show ?case
  proof (intro impI allI)
    fix rb1
    assume m: "m = - 1"
    then have dm: "d \<le> m" by simp
    show "y \<noteq> Inr (Exhausted, rb1)"
    proof (cases "Find_Keyword_test rb k l t fh")
      case (Inl f)
      with dm body(2) show ?thesis by auto
    next
      case (Inr p)
      obtain h rb0 where p: "p = (h, rb0)" by (cases p)
      show ?thesis
      proof (cases h)
        case True
        with dm Inr p body(2) show ?thesis by auto
      next
        case False
        with dm Inr p body(2)
        have "loop rb0 k l m t (d + 1) (if fh + 1 > max_length rb0 - 1 then 0 else fh + 1)
                = Some y"
          by simp
        from body(1) [OF this] m show ?thesis by blast
      qed
    qed
  qed
qed

lemma Find_Keyword_loop_no_fault:
  assumes "Find_Keyword_loop rb k l m t d fh = Some y"
  shows "unat (max_length rb) \<le> length (array_addr rb) \<longrightarrow> 1 \<le> unat l \<longrightarrow> unat l \<le> 4
           \<longrightarrow> fh < max_length rb \<longrightarrow> (\<forall>f. y \<noteq> Inl f)"
  using assms
proof (induct rule: Find_Keyword_loop.raw_induct [rotated 1, consumes 1, case_names body])
  case (body loop rb k l m t d fh y)
  show ?case
  proof (intro impI allI)
    fix f
    assume arr: "unat (max_length rb) \<le> length (array_addr rb)"
      and l: "1 \<le> unat l" "unat l \<le> 4" and fh: "fh < max_length rb"
    note tv = Find_Keyword_test_value [OF arr fh l, of k t]
    note nx = next_slot [OF fh]
    show "y \<noteq> Inl f"
    proof (cases "d \<le> m")
      case False
      with body(2) show ?thesis by auto
    next
      case True
      show ?thesis
      proof (cases "array_addr rb ! unat fh = t \<and>
                be_word (map (\<lambda>j. array_addr rb ! ((unat fh + j) mod unat (max_length rb)))
                              [0..<unat l]) = k")
        case hit: True
        with True tv body(2) show ?thesis by auto
      next
        case miss: False
        with True tv body(2)
        have "loop rb k l m t (d + 1) (if fh + 1 > max_length rb - 1 then 0 else fh + 1)
                = Some y"
          by simp
        from body(1) [OF this] arr l nx(2) show ?thesis by blast
      qed
    qed
  qed
qed

lemma find_keyword_does_not_return:
  "Ring_Buffer_Find_Keyword empty_of_four 0xABCD 2 = None"
proof (cases "Find_Keyword_loop empty_of_four 0xABCD 2 (- 1) 0xAB 1 0")
  case None
  then show ?thesis
    by (simp add: Ring_Buffer_Find_Keyword_def Ring_Buffer_Find_Keyword_exit_def
        empty_of_four_def Ring_Buffer_Init_def)
next
  case (Some y)
  have arr: "unat (max_length empty_of_four) \<le> length (array_addr empty_of_four)"
    and z: "(0 :: u32) < max_length empty_of_four"
    by (simp_all add: empty_of_four_def Ring_Buffer_Init_def)
  have tests: "Find_Keyword_test empty_of_four 0xABCD 2 0xAB (of_nat p) = Inr (False, empty_of_four)"
    if "p < 4" for p
  proof -
    from that consider "p = 0" | "p = 1" | "p = 2" | "p = 3" by linarith
    then show ?thesis
      by cases (simp_all add: Find_Keyword_test_def empty_of_four_def Ring_Buffer_Init_def)
  qed
  show ?thesis
  proof (cases y)
    case (Inl f)
    with Find_Keyword_loop_no_fault [OF Some] arr z show ?thesis by simp
  next
    case (Inr p)
    obtain e rb1 where p: "p = (e, rb1)" by (cases p)
    show ?thesis
    proof (cases e)
      case Exhausted
      with Find_Keyword_loop_unbounded [OF Some] Inr p show ?thesis by simp
    next
      case (Matched r)
      with Find_Keyword_loop_match [OF Some] z Inr p
      obtain j where "Find_Keyword_test empty_of_four 0xABCD 2 0xAB
                        (of_nat ((unat (0 :: u32) + j) mod unat (max_length empty_of_four)))
                        = Inr (True, empty_of_four)"
        by blast
      moreover have "(unat (0 :: u32) + j) mod unat (max_length empty_of_four) < 4"
        by (simp add: empty_of_four_def Ring_Buffer_Init_def)
      ultimately show ?thesis
        using tests by fastforce
    qed
  qed
qed



text \<open>
  Claim C4 (with fewer stored bytes than the keyword has, the search fails and looks at no
  more than length - keyword_lenght + 1 positions) does not hold of the code when the
  length is below \<open>keyword_lenght - 1\<close>: \<open>max_find_lenght\<close> is computed in unsigned 32-bit
  arithmetic and wraps around. In the buffer below nothing is stored any more; the search
  for the two-byte keyword \<open>0xABCD\<close> has \<open>max_find_lenght = 0xFFFFFFFF\<close>, walks over the
  free slots 2 and 3, wraps to slot 0 and returns the distance 3 for the bytes that were
  read out before. In a fresh buffer, where no slot matches, the same search never
  returns: the counter \<open>distance\<close> wraps around below the bound \<open>0xFFFFFFFF\<close>.
\<close>

theorem find_keyword_in_emptied_buffer:
  "Ring_Buffer_Write_String empty_of_four [0xAB, 0xCD] 2
     = Inr (RING_BUFFER_SUCCESS, read_out\<lparr>head := 0, lenght := 2\<rparr>) \<and>
   Ring_Buffer_Read_String (read_out\<lparr>head := 0, lenght := 2\<rparr>) 2
     = Inr (RING_BUFFER_SUCCESS, [0xAB, 0xCD], read_out) \<and>
   lenght read_out = 0 \<and>
   Ring_Buffer_Find_Keyword read_out 0xABCD 2 = Some (Inr (3, read_out)) \<and>
   Ring_Buffer_Find_Keyword empty_of_four 0xABCD 2 = None"
proof -
  have "Ring_Buffer_Find_Keyword read_out 0xABCD 2 = Some (Inr (3, read_out))"
    by code_simp
  then show ?thesis
    using find_keyword_does_not_return
    by (simp add: Ring_Buffer_Write_String_def Ring_Buffer_Read_String_def Ring_Buffer_Init_def
        empty_of_four_def read_out_def memcpy_to_def memcpy_from_def)
qed

end
